theory Spec2Isabelle
  imports Complex_Main "HOL-Library.Product_Lexorder"
begin

section \<open>The job queue of Gradr: store (db.js) and worker (worker.js)\<close>

text \<open>
  The SQLite tables of db.js are modelled as explicit state. The clock is read in two
  places. An SQL statement reads \<open>strftime('%s','now')\<close> when it runs: the epoch second
  is the parameter \<open>now\<close>, one value for the statements of one call (one transaction).
  \<open>enqueueJob\<close> and \<open>failJob\<close> also read \<open>Math.floor(Date.now() / 1000)\<close> in JavaScript,
  before their statement runs: that reading is the parameter \<open>js_now\<close>. The columns of
  \<open>jobs\<close> are \<open>int\<close>; the numbers of \<open>folders\<close> are described with the serial helpers.
\<close>

subsection \<open>Tables\<close>

text \<open>The column \<open>status\<close>: queued | processing | done | failed.\<close>

datatype status = Queued | Processing | Done | Failed

text \<open>A row of the table \<open>jobs\<close>; \<open>last_error\<close> is nullable, \<open>job_id\<close> is the column \<open>id\<close>.\<close>

record job =
  job_id :: int
  folder :: string
  image_path :: string
  text_path :: string
  status :: status
  attempts :: int
  last_error :: "string option"
  priority :: int
  available_at :: int
  created_at :: int
  updated_at :: int

text \<open>What \<open>claimStmt\<close> selects: id, folder, image_path, text_path, attempts.\<close>

record claim_row =
  r_id :: int
  r_folder :: string
  r_image_path :: string
  r_text_path :: string
  r_attempts :: int

text \<open>
  The database: the rows of \<open>jobs\<close> in insertion order, the table \<open>folders\<close>
  (primary key \<open>folder\<close>, column \<open>last_serial\<close>) as a map, and the AUTOINCREMENT
  sequence of \<open>jobs.id\<close> (the largest id ever handed out).
\<close>

record db =
  jobs :: "job list"
  folders :: "string \<rightharpoonup> int"
  seq :: int

definition empty_db :: db where
  "empty_db = \<lparr>jobs = [], folders = Map.empty, seq = 0\<rparr>"

datatype error = TypeError

subsection \<open>Serial helpers\<close>

text \<open>INSERT INTO folders(folder, last_serial) VALUES(?, 0) ON CONFLICT(folder) DO NOTHING\<close>

definition upsertFolder :: "string \<Rightarrow> db \<Rightarrow> db" where
  "upsertFolder f d =
     (case folders d f of
        None \<Rightarrow> d\<lparr>folders := (folders d)(f \<mapsto> 0)\<rparr>
      | Some c \<Rightarrow> d)"

text \<open>
  The column \<open>last_serial\<close> holds a 64-bit integer. SQLite computes \<open>last_serial + 1\<close>
  on 64-bit integers; when the sum leaves their range the result is a REAL (a double),
  here \<open>2 ^ 63\<close>, and adding 1 to a REAL of that magnitude leaves it unchanged. A value
  of the map outside the 64-bit range stands for the REAL of that value.
\<close>

definition sql_add1 :: "int \<Rightarrow> int" where
  "sql_add1 c =
     (if - (2 ^ 63) \<le> c \<and> c < 2 ^ 63 - 1 then c + 1
      else if c = 2 ^ 63 - 1 then 2 ^ 63
      else c)"

text \<open>
  better-sqlite3 hands a column value to JavaScript as a number, the double nearest to
  it (ties to the even significand): integers up to \<open>2 ^ 53\<close> in magnitude are kept,
  a larger 64-bit integer is rounded to 53 significant bits, a REAL is a double already.
\<close>

definition double_of_int :: "int \<Rightarrow> int" where
  "double_of_int v =
     (if \<bar>v\<bar> \<le> 2 ^ 53 \<or> 2 ^ 63 \<le> \<bar>v\<bar> then v
      else let a = \<bar>v\<bar>;
               u = 2 ^ length (filter (\<lambda>k. 2 ^ k \<le> a) [53..<63]);
               q = a div u;
               r = a mod u;
               q' = (if u < 2 * r \<or> (2 * r = u \<and> odd q) then q + 1 else q)
           in sgn v * (q' * u))"

text \<open>UPDATE folders SET last_serial = last_serial + 1 WHERE folder = ?\<close>

definition incSerial :: "string \<Rightarrow> db \<Rightarrow> db" where
  "incSerial f d =
     (case folders d f of
        None \<Rightarrow> d
      | Some c \<Rightarrow> d\<lparr>folders := (folders d)(f \<mapsto> sql_add1 c)\<rparr>)"

text \<open>
  SELECT last_serial FROM folders WHERE folder = ? (no row: \<open>undefined\<close>); the field
  of the row is a JavaScript number.
\<close>

definition getSerial :: "string \<Rightarrow> db \<Rightarrow> int option" where
  "getSerial f d = map_option double_of_int (folders d f)"

text \<open>
  \<open>nextSerial\<close> runs the three statements in one transaction and returns
  \<open>row.last_serial\<close>; reading the field of a missing row would throw.
\<close>

definition nextSerial :: "string \<Rightarrow> db \<Rightarrow> error + (int \<times> db)" where
  "nextSerial f d =
     (let d1 = upsertFolder f d;
          d2 = incSerial f d1
      in case getSerial f d2 of
           None \<Rightarrow> Inl TypeError
         | Some v \<Rightarrow> Inr (v, d2))"

text \<open>Successive calls of \<open>nextSerial\<close> for one folder, collecting the returned values.\<close>

fun nextSerials :: "nat \<Rightarrow> string \<Rightarrow> db \<Rightarrow> error + (int list \<times> db)" where
  "nextSerials 0 f d = Inr ([], d)"
| "nextSerials (Suc n) f d =
     (case nextSerial f d of
        Inl e \<Rightarrow> Inl e
      | Inr (v, d1) \<Rightarrow>
          (case nextSerials n f d1 of
             Inl e \<Rightarrow> Inl e
           | Inr (vs, d2) \<Rightarrow> Inr (v # vs, d2)))"

subsection \<open>Job helpers\<close>

text \<open>
  \<open>enqueueJob\<close>: INSERT with status 'queued', attempts 0 and
  \<open>available_at = Math.floor(Date.now() / 1000) + delaySeconds\<close>, computed in JavaScript
  from \<open>js_now\<close>; \<open>last_error\<close> is NULL, \<open>created_at\<close> and \<open>updated_at\<close> take their
  column default \<open>strftime('%s','now')\<close>, read by SQLite when the INSERT runs.
\<close>

definition enqueueJob ::
  "int \<Rightarrow> int \<Rightarrow> string \<Rightarrow> string \<Rightarrow> string \<Rightarrow> int \<Rightarrow> int \<Rightarrow> db \<Rightarrow> db" where
  "enqueueJob js_now now fo ip tp prio delaySeconds d =
     d\<lparr>jobs := jobs d @
          [\<lparr>job_id = seq d + 1, folder = fo, image_path = ip, text_path = tp,
            status = Queued, attempts = 0, last_error = None, priority = prio,
            available_at = js_now + delaySeconds, created_at = now, updated_at = now\<rparr>],
       seq := seq d + 1\<rparr>"

text \<open>The default of WORKER_STALE_SECS: 15 minutes.\<close>

definition STALE_SECS :: int where
  "STALE_SECS = 15 * 60"

definition stale_note :: string where
  "stale_note = ''[auto] requeued stale processing job''"

text \<open>The WHERE clause of \<open>requeueStaleStmt\<close>.\<close>

definition is_stale :: "int \<Rightarrow> int \<Rightarrow> job \<Rightarrow> bool" where
  "is_stale now stale j \<longleftrightarrow> status j = Processing \<and> updated_at j \<le> now - stale"

text \<open>
  The SET clause of \<open>requeueStaleStmt\<close>:
  \<open>last_error = COALESCE(last_error, '') ||
     CASE WHEN last_error IS NULL OR last_error = '' THEN '' ELSE '\n' END || note\<close>.
\<close>

definition stale_error :: "string option \<Rightarrow> string" where
  "stale_error e =
     (case e of None \<Rightarrow> [] | Some s \<Rightarrow> s) @
     (if e = None \<or> e = Some [] then [] else [CHR 0x0A]) @
     stale_note"

definition requeue_row :: "int \<Rightarrow> job \<Rightarrow> job" where
  "requeue_row now j =
     j\<lparr>status := Queued, available_at := now, updated_at := now,
       last_error := Some (stale_error (last_error j))\<rparr>"

text \<open>\<open>requeueStaleJobs\<close> returns the number of rows changed (and the new database).\<close>

definition requeueStaleJobs :: "int \<Rightarrow> int \<Rightarrow> db \<Rightarrow> nat \<times> db" where
  "requeueStaleJobs now staleSeconds d =
     (length (filter (is_stale now staleSeconds) (jobs d)),
      d\<lparr>jobs := map (\<lambda>j. if is_stale now staleSeconds j then requeue_row now j else j) (jobs d)\<rparr>)"

text \<open>
  \<open>claimStmt\<close>: WHERE status='queued' AND available_at <= now,
  ORDER BY priority DESC, available_at ASC, id ASC, LIMIT @limit.
  In SQLite a negative LIMIT puts no bound on the number of rows.
\<close>

definition eligible :: "int \<Rightarrow> job \<Rightarrow> bool" where
  "eligible now j \<longleftrightarrow> status j = Queued \<and> available_at j \<le> now"

definition claim_order :: "job \<Rightarrow> int \<times> int \<times> int" where
  "claim_order j = (- priority j, available_at j, job_id j)"

definition sql_limit :: "int \<Rightarrow> 'a list \<Rightarrow> 'a list" where
  "sql_limit limit xs = (if limit < 0 then xs else take (nat limit) xs)"

definition candidates :: "int \<Rightarrow> int \<Rightarrow> db \<Rightarrow> job list" where
  "candidates now limit d = sql_limit limit (sort_key claim_order (filter (eligible now) (jobs d)))"

definition row_of :: "job \<Rightarrow> claim_row" where
  "row_of j = \<lparr>r_id = job_id j, r_folder = folder j, r_image_path = image_path j,
              r_text_path = text_path j, r_attempts = attempts j\<rparr>"

definition claimStmt :: "int \<Rightarrow> int \<Rightarrow> db \<Rightarrow> claim_row list" where
  "claimStmt now limit d = map row_of (candidates now limit d)"

text \<open>
  \<open>markProcessing\<close>: UPDATE jobs SET status='processing', updated_at=now
  WHERE id=@id AND status='queued'; returns the number of rows changed.
\<close>

definition markProcessing :: "int \<Rightarrow> int \<Rightarrow> db \<Rightarrow> nat \<times> db" where
  "markProcessing now i d =
     (length (filter (\<lambda>j. job_id j = i \<and> status j = Queued) (jobs d)),
      d\<lparr>jobs := map (\<lambda>j. if job_id j = i \<and> status j = Queued
                          then j\<lparr>status := Processing, updated_at := now\<rparr> else j) (jobs d)\<rparr>)"

text \<open>The loop of \<open>claimJobs\<close>: a row is pushed when its update changed exactly one row.\<close>

fun claim_loop :: "int \<Rightarrow> claim_row list \<Rightarrow> claim_row list \<Rightarrow> db \<Rightarrow> claim_row list \<times> db" where
  "claim_loop now [] claimed d = (claimed, d)"
| "claim_loop now (r # rs) claimed d =
     (let (changes, d1) = markProcessing now (r_id r) d
      in claim_loop now rs (if changes = 1 then claimed @ [r] else claimed) d1)"

text \<open>
  \<open>claimJobs\<close>, one transaction: requeue stale jobs (threshold \<open>stale\<close>, the module's
  STALE_SECS), select, then mark each selected row.
\<close>

definition claimJobs :: "int \<Rightarrow> int \<Rightarrow> int \<Rightarrow> db \<Rightarrow> claim_row list \<times> db" where
  "claimJobs now stale limit d =
     (let (n, d1) = requeueStaleJobs now stale d;
          rows = claimStmt now limit d1
      in claim_loop now rows [] d1)"

text \<open>\<open>markDone\<close>: UPDATE jobs SET status='done', updated_at=now, last_error=NULL WHERE id=@id\<close>

definition markDone :: "int \<Rightarrow> int \<Rightarrow> db \<Rightarrow> db" where
  "markDone now i d =
     d\<lparr>jobs := map (\<lambda>j. if job_id j = i
                         then j\<lparr>status := Done, updated_at := now, last_error := None\<rparr>
                         else j) (jobs d)\<rparr>"

text \<open>
  \<open>markFail\<close>: UPDATE jobs SET status = CASE WHEN @final=1 THEN 'failed' ELSE 'queued' END,
  attempts = attempts + 1, last_error = @err, available_at = @next_time, updated_at = now
  WHERE id=@id
\<close>

definition markFail :: "int \<Rightarrow> int \<Rightarrow> string \<Rightarrow> int \<Rightarrow> int \<Rightarrow> db \<Rightarrow> db" where
  "markFail now i err final next_time d =
     d\<lparr>jobs := map (\<lambda>j. if job_id j = i
                         then j\<lparr>status := (if final = 1 then Failed else Queued),
                                attempts := attempts j + 1,
                                last_error := Some err,
                                available_at := next_time,
                                updated_at := now\<rparr>
                         else j) (jobs d)\<rparr>"

definition completeJob :: "int \<Rightarrow> int \<Rightarrow> db \<Rightarrow> db" where
  "completeJob now i d = markDone now i d"

text \<open>
  \<open>failJob(id, attempts, err, maxAttempts, backoffSeconds)\<close>: \<open>next_time\<close> is computed in
  JavaScript from \<open>Date.now()\<close>, \<open>updated_at\<close> is stamped by the statement; the message
  is cut at 2000.
\<close>

definition failJob :: "int \<Rightarrow> int \<Rightarrow> int \<Rightarrow> int \<Rightarrow> string \<Rightarrow> int \<Rightarrow> int \<Rightarrow> db \<Rightarrow> db" where
  "failJob js_now now i att err maxAttempts backoff d =
     (let final = (if att + 1 \<ge> maxAttempts then 1 else 0);
          next_time = (if final \<noteq> 0 then js_now else js_now + backoff)
      in markFail now i (take 2000 err) final next_time d)"

text \<open>
  \<open>purgeOldJobs(days)\<close>: two DELETE statements in one transaction, returning the
  numbers of rows deleted as (deletedDone, deletedFailed).
\<close>

definition purge_status :: "status \<Rightarrow> int \<Rightarrow> int \<Rightarrow> db \<Rightarrow> nat \<times> db" where
  "purge_status s now age d =
     (length (filter (\<lambda>j. status j = s \<and> updated_at j \<le> now - age) (jobs d)),
      d\<lparr>jobs := filter (\<lambda>j. \<not> (status j = s \<and> updated_at j \<le> now - age)) (jobs d)\<rparr>)"

definition purgeOldJobs :: "int \<Rightarrow> int \<Rightarrow> db \<Rightarrow> (nat \<times> nat) \<times> db" where
  "purgeOldJobs now days d =
     (let age = days * 24 * 60 * 60;
          (dn, d1) = purge_status Done now age d;
          (fl, d2) = purge_status Failed now age d1
      in ((dn, fl), d2))"

text \<open>\<open>getJob\<close>: SELECT * FROM jobs WHERE id = ? (the row, or \<open>undefined\<close>).\<close>

definition getJob :: "int \<Rightarrow> db \<Rightarrow> job option" where
  "getJob i d = find (\<lambda>j. job_id j = i) (jobs d)"

subsection \<open>Worker (worker.js)\<close>

text \<open>The tunable WORKER_MAX_ATTEMPTS (default 3).\<close>

record config =
  MAX_ATTEMPTS :: int

text \<open>
  What happens to one job outside the store: whether the image is on disk, and whether
  transcription and writing the text file return or throw (with the message
  \<open>e?.message || String(e)\<close>).
\<close>

datatype outcome = Transcribed | Threw string

text \<open>
  \<open>workOne\<close>. The delay \<open>backoffSeconds(attempts)\<close> is computed in double arithmetic from
  the backoff tunables and a draw of \<open>Math.random()\<close>; the function of this call, from
  the attempt count to the number of seconds it returns, is the parameter
  \<open>backoffSeconds\<close>.
\<close>

definition workOne ::
  "(int \<Rightarrow> int) \<Rightarrow> config \<Rightarrow> int \<Rightarrow> int \<Rightarrow> bool \<Rightarrow> outcome \<Rightarrow> claim_row \<Rightarrow> db \<Rightarrow> db" where
  "workOne backoffSeconds c js_now now image_exists res r d =
     (if \<not> image_exists
      then failJob js_now now (r_id r) (r_attempts r) ''Image missing on disk'' (MAX_ATTEMPTS c)
             (backoffSeconds (r_attempts r)) d
      else case res of
             Transcribed \<Rightarrow> completeJob now (r_id r) d
           | Threw msg \<Rightarrow>
               failJob js_now now (r_id r) (r_attempts r) msg (MAX_ATTEMPTS c)
                 (backoffSeconds (r_attempts r)) d)"

subsection \<open>Notions used to state the properties\<close>

text \<open>The counter of a folder, 0 while the folder has no row.\<close>

definition last_serial :: "db \<Rightarrow> string \<Rightarrow> int" where
  "last_serial d f = (case folders d f of None \<Rightarrow> 0 | Some c \<Rightarrow> c)"

text \<open>Well-formed tables: \<open>id\<close> is the primary key of \<open>jobs\<close>.\<close>

definition distinct_ids :: "db \<Rightarrow> bool" where
  "distinct_ids d \<longleftrightarrow> distinct (map job_id (jobs d))"

text \<open>
  The selection order in words: higher \<open>priority\<close> first, then earlier
  \<open>available_at\<close>, then smaller \<open>id\<close>.
\<close>

definition precedes :: "job \<Rightarrow> job \<Rightarrow> bool" where
  "precedes a b \<longleftrightarrow>
     priority a > priority b
     \<or> (priority a = priority b
        \<and> (available_at a < available_at b
           \<or> (available_at a = available_at b \<and> job_id a < job_id b)))"

text \<open>The row a claim leaves behind: status processing, touched at \<open>now\<close>.\<close>

definition mark_row :: "int \<Rightarrow> job \<Rightarrow> job" where
  "mark_row now j = j\<lparr>status := Processing, updated_at := now\<rparr>"

text \<open>
  Sequences of store operations. Each operation comes with its two clock readings:
  \<open>js_now\<close>, read in JavaScript before the statement runs (used by \<open>enqueueJob\<close> and
  \<open>failJob\<close> only), and \<open>now\<close>, read by SQLite when the statement runs. Beside the
  database the run keeps, for every job id, the two readings of the operation that most
  recently put the job into status queued (\<open>enqueueJob\<close>, a retry of \<open>failJob\<close>, or stale
  recovery, which reads the clock of its statement only), and the latest reading.
\<close>

datatype store_op =
    Enqueue string string string int int
  | Claim int
  | RequeueStale int
  | Complete int
  | Fail int int string int int
  | Purge int
  | NextSerial string

record sys =
  store :: db
  queued_at :: "int \<Rightarrow> (int \<times> int) option"
  clock :: int

definition init_sys :: sys where
  "init_sys = \<lparr>store = empty_db, queued_at = (\<lambda>i. None), clock = 0\<rparr>"

definition stamp ::
  "int \<times> int \<Rightarrow> int list \<Rightarrow> (int \<Rightarrow> (int \<times> int) option) \<Rightarrow> (int \<Rightarrow> (int \<times> int) option)" where
  "stamp t ids E = (\<lambda>i. if i \<in> set ids then Some t else E i)"

definition stale_ids :: "int \<Rightarrow> int \<Rightarrow> db \<Rightarrow> int list" where
  "stale_ids now stale d = map job_id (filter (is_stale now stale) (jobs d))"

fun step :: "int \<Rightarrow> int \<Rightarrow> int \<Rightarrow> store_op \<Rightarrow> sys \<Rightarrow> sys" where
  "step stale js_now now (Enqueue fo ip tp prio delaySeconds) s =
     \<lparr>store = enqueueJob js_now now fo ip tp prio delaySeconds (store s),
      queued_at = stamp (js_now, now) [seq (store s) + 1] (queued_at s), clock = now\<rparr>"
| "step stale js_now now (Claim limit) s =
     \<lparr>store = snd (claimJobs now stale limit (store s)),
      queued_at = stamp (now, now) (stale_ids now stale (store s)) (queued_at s), clock = now\<rparr>"
| "step stale js_now now (RequeueStale staleSeconds) s =
     \<lparr>store = snd (requeueStaleJobs now staleSeconds (store s)),
      queued_at = stamp (now, now) (stale_ids now staleSeconds (store s)) (queued_at s),
      clock = now\<rparr>"
| "step stale js_now now (Complete i) s =
     \<lparr>store = completeJob now i (store s), queued_at = queued_at s, clock = now\<rparr>"
| "step stale js_now now (Fail i att err maxAttempts backoff) s =
     \<lparr>store = failJob js_now now i att err maxAttempts backoff (store s),
      queued_at = stamp (js_now, now) (if att + 1 \<ge> maxAttempts then [] else [i]) (queued_at s),
      clock = now\<rparr>"
| "step stale js_now now (Purge days) s =
     \<lparr>store = snd (purgeOldJobs now days (store s)), queued_at = queued_at s, clock = now\<rparr>"
| "step stale js_now now (NextSerial f) s =
     \<lparr>store = (case nextSerial f (store s) of Inl e \<Rightarrow> store s | Inr (v, d) \<Rightarrow> d),
      queued_at = queued_at s, clock = now\<rparr>"

fun run :: "int \<Rightarrow> (int \<times> int \<times> store_op) list \<Rightarrow> sys \<Rightarrow> sys" where
  "run stale [] s = s"
| "run stale ((js_now, now, x) # tr) s = run stale tr (step stale js_now now x s)"

text \<open>The clock readings of a run, in the order in which they are taken.\<close>

fun clock_readings :: "(int \<times> int \<times> store_op) list \<Rightarrow> int list" where
  "clock_readings [] = []"
| "clock_readings ((js_now, now, x) # tr) = js_now # now # clock_readings tr"

text \<open>Delays and backoffs that are not negative.\<close>

fun delay_ok :: "store_op \<Rightarrow> bool" where
  "delay_ok (Enqueue fo ip tp prio delaySeconds) \<longleftrightarrow> 0 \<le> delaySeconds"
| "delay_ok (Fail i att err maxAttempts backoff) \<longleftrightarrow> 0 \<le> backoff"
| "delay_ok x \<longleftrightarrow> True"

text \<open>
  The property of one job: the operation that queued it is recorded with readings
  \<open>t \<le> u\<close>, none after the latest reading, and \<open>t\<close> is not after \<open>available_at\<close>; while
  the job is queued, \<open>u\<close> is its \<open>updated_at\<close>.
\<close>

definition entered_ok :: "int \<Rightarrow> (int \<Rightarrow> (int \<times> int) option) \<Rightarrow> job \<Rightarrow> bool" where
  "entered_ok c E j \<longleftrightarrow>
     (case E (job_id j) of
        None \<Rightarrow> False
      | Some (t, u) \<Rightarrow>
          t \<le> u \<and> u \<le> c \<and> t \<le> available_at j \<and> (status j = Queued \<longrightarrow> updated_at j = u))"

definition sys_inv :: "sys \<Rightarrow> bool" where
  "sys_inv s \<longleftrightarrow>
     distinct (map job_id (jobs (store s)))
     \<and> list_all (\<lambda>j. job_id j \<le> seq (store s)) (jobs (store s))
     \<and> list_all (entered_ok (clock s) (queued_at s)) (jobs (store s))"

subsection \<open>Sample rows, databases and runs\<close>

text \<open>Two jobs in status processing, last touched at 100 and at 500.\<close>

definition job1 :: job where
  "job1 = \<lparr>job_id = 1, folder = ''X'', image_path = ''a.png'', text_path = ''a.txt'',
           status = Processing, attempts = 0, last_error = None, priority = 0,
           available_at = 100, created_at = 100, updated_at = 100\<rparr>"

definition job2 :: job where
  "job2 = \<lparr>job_id = 2, folder = ''X'', image_path = ''b.png'', text_path = ''b.txt'',
           status = Processing, attempts = 1, last_error = Some ''boom'', priority = 0,
           available_at = 150, created_at = 100, updated_at = 500\<rparr>"

definition db1 :: db where
  "db1 = \<lparr>jobs = [job1], folders = Map.empty, seq = 1\<rparr>"

definition db2 :: db where
  "db2 = \<lparr>jobs = [job1, job2], folders = Map.empty, seq = 2\<rparr>"

text \<open>
  Three queued jobs of priorities 1, 5 and 9, the last not yet available; a job in
  status processing last touched at 60; a job in status failed.
\<close>

definition jobA :: job where
  "jobA = \<lparr>job_id = 1, folder = ''X'', image_path = ''a.png'', text_path = ''a.txt'',
           status = Queued, attempts = 0, last_error = None, priority = 1,
           available_at = 100, created_at = 100, updated_at = 100\<rparr>"

definition jobB :: job where
  "jobB = \<lparr>job_id = 2, folder = ''X'', image_path = ''b.png'', text_path = ''b.txt'',
           status = Queued, attempts = 0, last_error = None, priority = 5,
           available_at = 100, created_at = 100, updated_at = 100\<rparr>"

definition jobC :: job where
  "jobC = \<lparr>job_id = 3, folder = ''X'', image_path = ''c.png'', text_path = ''c.txt'',
           status = Queued, attempts = 0, last_error = None, priority = 9,
           available_at = 5000, created_at = 100, updated_at = 100\<rparr>"

definition jobS :: job where
  "jobS = \<lparr>job_id = 4, folder = ''X'', image_path = ''s.png'', text_path = ''s.txt'',
           status = Processing, attempts = 1, last_error = None, priority = 1,
           available_at = 50, created_at = 50, updated_at = 60\<rparr>"

definition jobF :: job where
  "jobF = \<lparr>job_id = 1, folder = ''X'', image_path = ''a.png'', text_path = ''a.txt'',
           status = Failed, attempts = 3, last_error = Some ''boom'', priority = 0,
           available_at = 100, created_at = 50, updated_at = 100\<rparr>"

definition dbA :: db where
  "dbA = \<lparr>jobs = [jobA], folders = Map.empty, seq = 1\<rparr>"

definition db3 :: db where
  "db3 = \<lparr>jobs = [jobA, jobB, jobC], folders = Map.empty, seq = 3\<rparr>"

definition db4 :: db where
  "db4 = \<lparr>jobs = [jobA, jobS], folders = Map.empty, seq = 4\<rparr>"

definition dbF :: db where
  "dbF = \<lparr>jobs = [jobF], folders = Map.empty, seq = 1\<rparr>"

text \<open>
  A sample run: enqueue, claim, and a first failure 30 seconds later whose statement
  runs in the second after its JavaScript clock reading.
\<close>

definition sample_run :: "(int \<times> int \<times> store_op) list" where
  "sample_run =
     [(100, 100, Enqueue ''X'' ''a.png'' ''a.txt'' 0 0), (100, 100, Claim 1),
      (130, 131, Fail 1 0 ''boom'' 3 5)]"

definition jobR :: job where
  "jobR = \<lparr>job_id = 1, folder = ''X'', image_path = ''a.png'', text_path = ''a.txt'',
           status = Queued, attempts = 1, last_error = Some ''boom'', priority = 0,
           available_at = 135, created_at = 100, updated_at = 131\<rparr>"

section \<open>Properties\<close>

subsection \<open>Folder serials\<close>

lemma double_of_int_exact: "\<bar>v\<bar> \<le> 2 ^ 53 \<Longrightarrow> double_of_int v = v"
  by (simp add: double_of_int_def)

lemma sql_add1_exact: "- (2 ^ 63) \<le> c \<Longrightarrow> c < 2 ^ 63 - 1 \<Longrightarrow> sql_add1 c = c + 1"
  by (simp add: sql_add1_def)

lemma nextSerial_total:
  "nextSerial f d =
     Inr (double_of_int (sql_add1 (last_serial d f)),
          d\<lparr>folders := (folders d)(f \<mapsto> sql_add1 (last_serial d f))\<rparr>)"
  by (simp add: nextSerial_def upsertFolder_def incSerial_def getSerial_def last_serial_def
      split: option.split)

lemma nextSerial_value:
  assumes "- (2 ^ 53) \<le> last_serial d f" "last_serial d f + 1 \<le> 2 ^ 53"
  shows "nextSerial f d =
     Inr (last_serial d f + 1, d\<lparr>folders := (folders d)(f \<mapsto> last_serial d f + 1)\<rparr>)"
proof -
  from assms have "sql_add1 (last_serial d f) = last_serial d f + 1"
    by (intro sql_add1_exact) simp_all
  moreover from assms have "double_of_int (last_serial d f + 1) = last_serial d f + 1"
    by (intro double_of_int_exact) simp
  ultimately show ?thesis by (simp add: nextSerial_total)
qed

lemma last_serial_upd: "last_serial (d\<lparr>folders := (folders d)(f \<mapsto> v)\<rparr>) f = v"
  by (simp add: last_serial_def)

lemma nextSerials_run:
  assumes "- (2 ^ 53) \<le> last_serial d f" "last_serial d f + int n \<le> 2 ^ 53"
  shows "\<exists>d'. nextSerials n f d = Inr (map (\<lambda>k. last_serial d f + 1 + int k) [0..<n], d')
        \<and> (\<forall>g. g \<noteq> f \<longrightarrow> folders d' g = folders d g)
        \<and> last_serial d' f = last_serial d f + int n
        \<and> jobs d' = jobs d \<and> seq d' = seq d"
  using assms
proof (induction n arbitrary: d)
  case 0
  show ?case by simp
next
  case (Suc n)
  let ?d1 = "d\<lparr>folders := (folders d)(f \<mapsto> last_serial d f + 1)\<rparr>"
  have l1: "last_serial ?d1 f = last_serial d f + 1" by (rule last_serial_upd)
  from Suc.prems have first: "nextSerial f d = Inr (last_serial d f + 1, ?d1)"
    by (intro nextSerial_value) simp_all
  from Suc.prems have "- (2 ^ 53) \<le> last_serial ?d1 f" "last_serial ?d1 f + int n \<le> 2 ^ 53"
    by (simp_all add: l1)
  from Suc.IH [OF this] obtain d' where
    run: "nextSerials n f ?d1 = Inr (map (\<lambda>k. last_serial ?d1 f + 1 + int k) [0..<n], d')"
    and oth: "\<forall>g. g \<noteq> f \<longrightarrow> folders d' g = folders ?d1 g"
    and cnt: "last_serial d' f = last_serial ?d1 f + int n"
    and rest: "jobs d' = jobs ?d1" "seq d' = seq ?d1"
    by blast
  have "map (\<lambda>k. last_serial d f + 1 + int k) [0..<Suc n]
        = (last_serial d f + 1) # map (\<lambda>k. last_serial d f + 1 + 1 + int k) [0..<n]"
    by (simp add: upt_conv_Cons map_Suc_upt [symmetric] del: upt_Suc)
  with run oth cnt rest l1 show ?case
    by (simp add: first del: upt_Suc)
qed

text \<open>
  Past \<open>2 ^ 53\<close> the number handed to JavaScript is no longer the counter: at a counter
  of \<open>2 ^ 53\<close> the call stores \<open>2 ^ 53 + 1\<close> and returns \<open>2 ^ 53\<close>.
\<close>

lemma nextSerial_past_exact_range:
  assumes "folders d f = Some (2 ^ 53)"
  shows "nextSerial f d = Inr (2 ^ 53, d\<lparr>folders := (folders d)(f \<mapsto> 2 ^ 53 + 1)\<rparr>)"
proof -
  have "double_of_int (2 ^ 53 + 1) = 2 ^ 53"
    by (simp add: double_of_int_def Let_def upt_conv_Cons)
  with assms show ?thesis
    by (simp add: nextSerial_total last_serial_def sql_add1_def)
qed

text \<open>
  C7. \<open>nextSerial\<close> never fails; it creates the folder's row at 0 when absent and adds one
  to the counter. While the counter stays within \<open>2 ^ 53\<close> in magnitude (the integers a
  JavaScript number holds exactly) it returns the new value, so the first call for a
  folder returns 1, and \<open>n\<close> successive calls for one folder return the \<open>n\<close> consecutive
  integers that follow the counter, each once and in order, leaving the counters of all
  other folders and the jobs as they were.
\<close>

theorem C7_nextSerial_consecutive:
  "(\<exists>v c. nextSerial f d = Inr (v, d\<lparr>folders := (folders d)(f \<mapsto> c)\<rparr>))
   \<and> (- (2 ^ 53) \<le> last_serial d f \<and> last_serial d f + 1 \<le> 2 ^ 53 \<longrightarrow>
        nextSerial f d =
          Inr (last_serial d f + 1, d\<lparr>folders := (folders d)(f \<mapsto> last_serial d f + 1)\<rparr>))
   \<and> (folders d f = None \<longrightarrow> (\<exists>d'. nextSerial f d = Inr (1, d')))
   \<and> (- (2 ^ 53) \<le> last_serial d f \<and> last_serial d f + int n \<le> 2 ^ 53 \<longrightarrow>
        (\<exists>d'. nextSerials n f d = Inr (map (\<lambda>k. last_serial d f + 1 + int k) [0..<n], d')
           \<and> (\<forall>g. g \<noteq> f \<longrightarrow> folders d' g = folders d g)
           \<and> last_serial d' f = last_serial d f + int n
           \<and> jobs d' = jobs d))"
proof (intro conjI impI)
  show "\<exists>v c. nextSerial f d = Inr (v, d\<lparr>folders := (folders d)(f \<mapsto> c)\<rparr>)"
    using nextSerial_total [of f d] by blast
next
  assume "- (2 ^ 53) \<le> last_serial d f \<and> last_serial d f + 1 \<le> 2 ^ 53"
  then show "nextSerial f d =
          Inr (last_serial d f + 1, d\<lparr>folders := (folders d)(f \<mapsto> last_serial d f + 1)\<rparr>)"
    by (intro nextSerial_value) simp_all
next
  assume "folders d f = None"
  then have "last_serial d f = 0" by (simp add: last_serial_def)
  then show "\<exists>d'. nextSerial f d = Inr (1, d')"
    using nextSerial_value [of d f] by simp
next
  assume "- (2 ^ 53) \<le> last_serial d f \<and> last_serial d f + int n \<le> 2 ^ 53"
  then show "\<exists>d'. nextSerials n f d = Inr (map (\<lambda>k. last_serial d f + 1 + int k) [0..<n], d')
        \<and> (\<forall>g. g \<noteq> f \<longrightarrow> folders d' g = folders d g)
        \<and> last_serial d' f = last_serial d f + int n
        \<and> jobs d' = jobs d"
    using nextSerials_run [of d f n] by blast
qed

theorem C7_nextSerial_witness:
  "folders empty_db ''X'' = None
   \<and> - (2 ^ 53) \<le> last_serial empty_db ''X'' \<and> last_serial empty_db ''X'' + int 3 \<le> 2 ^ 53
   \<and> (\<exists>d'. nextSerial ''X'' empty_db = Inr (1, d'))
   \<and> (\<exists>d'. nextSerials 3 ''X'' empty_db = Inr ([1, 2, 3], d')
         \<and> folders d' ''Y'' = folders empty_db ''Y'')"
proof -
  have e: "folders empty_db ''X'' = None" by (simp add: empty_db_def)
  have l: "last_serial empty_db ''X'' = 0" by (simp add: last_serial_def e)
  have u: "[0..<3] = [0, 1, 2]" by (simp add: upt_conv_Cons)
  from C7_nextSerial_consecutive [of "''X''" empty_db 3] e l u show ?thesis
    by auto
qed

subsection \<open>Stale recovery\<close>

lemma requeue_row_fields:
  "status (requeue_row now j) = Queued" "available_at (requeue_row now j) = now"
  "updated_at (requeue_row now j) = now" "attempts (requeue_row now j) = attempts j"
  "job_id (requeue_row now j) = job_id j" "folder (requeue_row now j) = folder j"
  "image_path (requeue_row now j) = image_path j" "text_path (requeue_row now j) = text_path j"
  "priority (requeue_row now j) = priority j" "created_at (requeue_row now j) = created_at j"
  "last_error (requeue_row now j) = Some (stale_error (last_error j))"
  by (simp_all add: requeue_row_def)

lemma stale_error_cases:
  "stale_error e = (case e of None \<Rightarrow> stale_note
                    | Some s \<Rightarrow> if s = [] then stale_note else s @ [CHR 0x0A] @ stale_note)"
  by (simp add: stale_error_def split: option.split)

text \<open>
  C3. \<open>requeueStaleJobs\<close>, which \<open>claimJobs\<close> runs first, changes exactly the rows
  in status processing whose \<open>updated_at\<close> is at least the threshold old: each becomes
  queued with \<open>available_at = now\<close>, its \<open>attempts\<close> unchanged, and its
  \<open>last_error\<close> is the earlier text (when there is one), a newline and the note, or
  the note alone. Every other row is left as it was, and the returned number counts the
  rows changed.
\<close>

theorem C3_requeue_stale:
  "requeueStaleJobs now stale d = (n, d') \<longrightarrow>
     length (jobs d') = length (jobs d) \<and> folders d' = folders d \<and> seq d' = seq d
     \<and> n = length (filter (\<lambda>j. status j = Processing \<and> updated_at j \<le> now - stale) (jobs d))
     \<and> (\<forall>k < length (jobs d).
          (status (jobs d ! k) = Processing \<and> updated_at (jobs d ! k) \<le> now - stale \<longrightarrow>
             status (jobs d' ! k) = Queued
           \<and> available_at (jobs d' ! k) = now
           \<and> updated_at (jobs d' ! k) = now
           \<and> attempts (jobs d' ! k) = attempts (jobs d ! k)
           \<and> last_error (jobs d' ! k) =
               Some (case last_error (jobs d ! k) of
                       None \<Rightarrow> stale_note
                     | Some s \<Rightarrow> if s = [] then stale_note else s @ [CHR 0x0A] @ stale_note)
           \<and> job_id (jobs d' ! k) = job_id (jobs d ! k)
           \<and> folder (jobs d' ! k) = folder (jobs d ! k)
           \<and> image_path (jobs d' ! k) = image_path (jobs d ! k)
           \<and> text_path (jobs d' ! k) = text_path (jobs d ! k)
           \<and> priority (jobs d' ! k) = priority (jobs d ! k)
           \<and> created_at (jobs d' ! k) = created_at (jobs d ! k))
        \<and> (\<not> (status (jobs d ! k) = Processing \<and> updated_at (jobs d ! k) \<le> now - stale) \<longrightarrow>
             jobs d' ! k = jobs d ! k))
     \<and> claimJobs now stale limit d = claim_loop now (claimStmt now limit d') [] d'"
proof
  assume r: "requeueStaleJobs now stale d = (n, d')"
  then have d': "d' = d\<lparr>jobs := map (\<lambda>j. if is_stale now stale j then requeue_row now j else j) (jobs d)\<rparr>"
    and n: "n = length (filter (is_stale now stale) (jobs d))"
    by (auto simp: requeueStaleJobs_def)
  have st: "\<And>j. is_stale now stale j \<longleftrightarrow> status j = Processing \<and> updated_at j \<le> now - stale"
    by (simp add: is_stale_def)
  have a: "length (jobs d') = length (jobs d) \<and> folders d' = folders d \<and> seq d' = seq d"
    by (simp add: d')
  have st': "is_stale now stale = (\<lambda>j. status j = Processing \<and> updated_at j \<le> now - stale)"
    by (simp add: fun_eq_iff is_stale_def)
  have b: "n = length (filter (\<lambda>j. status j = Processing \<and> updated_at j \<le> now - stale) (jobs d))"
    by (simp add: n st')
  have c: "claimJobs now stale limit d = claim_loop now (claimStmt now limit d') [] d'"
    by (simp add: claimJobs_def r)
  have e: "jobs d' ! k = (if is_stale now stale (jobs d ! k) then requeue_row now (jobs d ! k) else jobs d ! k)"
    if "k < length (jobs d)" for k
    using that by (simp add: d')
  show "length (jobs d') = length (jobs d) \<and> folders d' = folders d \<and> seq d' = seq d
     \<and> n = length (filter (\<lambda>j. status j = Processing \<and> updated_at j \<le> now - stale) (jobs d))
     \<and> (\<forall>k < length (jobs d).
          (status (jobs d ! k) = Processing \<and> updated_at (jobs d ! k) \<le> now - stale \<longrightarrow>
             status (jobs d' ! k) = Queued
           \<and> available_at (jobs d' ! k) = now
           \<and> updated_at (jobs d' ! k) = now
           \<and> attempts (jobs d' ! k) = attempts (jobs d ! k)
           \<and> last_error (jobs d' ! k) =
               Some (case last_error (jobs d ! k) of
                       None \<Rightarrow> stale_note
                     | Some s \<Rightarrow> if s = [] then stale_note else s @ [CHR 0x0A] @ stale_note)
           \<and> job_id (jobs d' ! k) = job_id (jobs d ! k)
           \<and> folder (jobs d' ! k) = folder (jobs d ! k)
           \<and> image_path (jobs d' ! k) = image_path (jobs d ! k)
           \<and> text_path (jobs d' ! k) = text_path (jobs d ! k)
           \<and> priority (jobs d' ! k) = priority (jobs d ! k)
           \<and> created_at (jobs d' ! k) = created_at (jobs d ! k))
        \<and> (\<not> (status (jobs d ! k) = Processing \<and> updated_at (jobs d ! k) \<le> now - stale) \<longrightarrow>
             jobs d' ! k = jobs d ! k))
     \<and> claimJobs now stale limit d = claim_loop now (claimStmt now limit d') [] d'"
    using a b c by (simp add: e st requeue_row_fields stale_error_cases)
qed

theorem C3_requeue_stale_witness:
  "requeueStaleJobs 1000 900 db2 = (1, db2\<lparr>jobs := [requeue_row 1000 job1, job2]\<rparr>)
   \<and> status (requeue_row 1000 job1) = Queued \<and> available_at (requeue_row 1000 job1) = 1000
   \<and> attempts (requeue_row 1000 job1) = 0
   \<and> last_error (requeue_row 1000 job1) = Some stale_note
   \<and> last_error (requeue_row 1000 job2) = Some (''boom'' @ [CHR 0x0A] @ stale_note)"
proof -
  have r: "requeueStaleJobs 1000 900 db2 = (1, db2\<lparr>jobs := [requeue_row 1000 job1, job2]\<rparr>)"
    by (simp add: requeueStaleJobs_def db2_def is_stale_def job1_def job2_def)
  have s: "requeueStaleJobs 2000 900 db2 = (2, db2\<lparr>jobs := [requeue_row 2000 job1, requeue_row 2000 job2]\<rparr>)"
    by (simp add: requeueStaleJobs_def db2_def is_stale_def job1_def job2_def)
  have j: "jobs db2 = [job1, job2]" by (simp add: db2_def)
  have f: "status job1 = Processing" "updated_at job1 = 100" "attempts job1 = 0" "last_error job1 = None"
    "status job2 = Processing" "updated_at job2 = 500" "last_error job2 = Some ''boom''"
    by (simp_all add: job1_def job2_def)
  from C3_requeue_stale [of 1000 900 db2 1 "db2\<lparr>jobs := [requeue_row 1000 job1, job2]\<rparr>" 1] r
  have "\<forall>k<2. (k = 0 \<longrightarrow> status (requeue_row 1000 job1) = Queued
           \<and> available_at (requeue_row 1000 job1) = 1000
           \<and> attempts (requeue_row 1000 job1) = 0
           \<and> last_error (requeue_row 1000 job1) = Some stale_note)"
    by (auto simp: j f)
  then have one: "status (requeue_row 1000 job1) = Queued
           \<and> available_at (requeue_row 1000 job1) = 1000
           \<and> attempts (requeue_row 1000 job1) = 0
           \<and> last_error (requeue_row 1000 job1) = Some stale_note"
    by auto
  have two: "last_error (requeue_row 1000 job2) = Some (''boom'' @ [CHR 0x0A] @ stale_note)"
    by (simp add: requeue_row_def stale_error_def job2_def)
  from r one two show ?thesis by simp
qed

subsection \<open>Failure of a job\<close>

lemma find_map_same_id:
  "(\<And>j. job_id (f j) = job_id j) \<Longrightarrow>
   find (\<lambda>j. job_id j = i) (map f xs) = map_option f (find (\<lambda>j. job_id j = i) xs)"
  by (induction xs) auto

lemma getJob_markFail:
  "getJob i' (markFail now i err final next_time d) =
   map_option (\<lambda>j. if job_id j = i
                     then j\<lparr>status := (if final = 1 then Failed else Queued),
                            attempts := attempts j + 1, last_error := Some err,
                            available_at := next_time, updated_at := now\<rparr>
                     else j) (getJob i' d)"
  unfolding getJob_def markFail_def by (simp add: find_map_same_id)

lemma getJob_Some_id: "getJob i d = Some j \<Longrightarrow> job_id j = i"
  unfolding getJob_def by (auto simp: find_Some_iff)

text \<open>
  C2. \<open>failJob\<close> on an existing job adds exactly one to the stored \<open>attempts\<close> and
  stores the message (its first 2000 characters) in \<open>last_error\<close>. With the attempt count
  \<open>att\<close> passed by the caller and the clock reading \<open>js_now\<close> of the call: if
  \<open>att + 1 < maxAttempts\<close> the job is queued again with \<open>available_at = js_now + backoff\<close>,
  otherwise it is failed with \<open>available_at = js_now\<close>. No other job changes. \<open>workOne\<close>
  reports both a missing image and a thrown error this way, with the attempt count of
  the claimed row and the backoff computed from it.
\<close>

theorem C2_failJob_retry_or_fail:
  "(getJob i d = Some j \<longrightarrow>
      (\<exists>j'. getJob i (failJob js_now now i att err maxAttempts backoff d) = Some j'
         \<and> attempts j' = attempts j + 1
         \<and> last_error j' = Some (take 2000 err)
         \<and> (length err \<le> 2000 \<longrightarrow> last_error j' = Some err)
         \<and> (att + 1 < maxAttempts \<longrightarrow> status j' = Queued \<and> available_at j' = js_now + backoff)
         \<and> (att + 1 \<ge> maxAttempts \<longrightarrow> status j' = Failed \<and> available_at j' = js_now)
         \<and> updated_at j' = now
         \<and> job_id j' = i \<and> folder j' = folder j \<and> image_path j' = image_path j
         \<and> text_path j' = text_path j \<and> priority j' = priority j
         \<and> created_at j' = created_at j))
   \<and> (i' \<noteq> i \<longrightarrow> getJob i' (failJob js_now now i att err maxAttempts backoff d) = getJob i' d)
   \<and> workOne backoffSeconds c js_now now False res r d =
       failJob js_now now (r_id r) (r_attempts r) ''Image missing on disk'' (MAX_ATTEMPTS c)
         (backoffSeconds (r_attempts r)) d
   \<and> workOne backoffSeconds c js_now now True (Threw msg) r d =
       failJob js_now now (r_id r) (r_attempts r) msg (MAX_ATTEMPTS c)
         (backoffSeconds (r_attempts r)) d"
proof (intro conjI impI)
  assume g: "getJob i d = Some j"
  then have "job_id j = i" by (rule getJob_Some_id)
  with g show "\<exists>j'. getJob i (failJob js_now now i att err maxAttempts backoff d) = Some j'
         \<and> attempts j' = attempts j + 1
         \<and> last_error j' = Some (take 2000 err)
         \<and> (length err \<le> 2000 \<longrightarrow> last_error j' = Some err)
         \<and> (att + 1 < maxAttempts \<longrightarrow> status j' = Queued \<and> available_at j' = js_now + backoff)
         \<and> (att + 1 \<ge> maxAttempts \<longrightarrow> status j' = Failed \<and> available_at j' = js_now)
         \<and> updated_at j' = now
         \<and> job_id j' = i \<and> folder j' = folder j \<and> image_path j' = image_path j
         \<and> text_path j' = text_path j \<and> priority j' = priority j
         \<and> created_at j' = created_at j"
    by (simp add: failJob_def getJob_markFail Let_def)
next
  assume "i' \<noteq> i"
  then show "getJob i' (failJob js_now now i att err maxAttempts backoff d) = getJob i' d"
    by (cases "getJob i' d") (auto simp: failJob_def getJob_markFail Let_def dest: getJob_Some_id)
next
  show "workOne backoffSeconds c js_now now False res r d =
       failJob js_now now (r_id r) (r_attempts r) ''Image missing on disk'' (MAX_ATTEMPTS c)
         (backoffSeconds (r_attempts r)) d"
    by (simp add: workOne_def)
next
  show "workOne backoffSeconds c js_now now True (Threw msg) r d =
       failJob js_now now (r_id r) (r_attempts r) msg (MAX_ATTEMPTS c)
         (backoffSeconds (r_attempts r)) d"
    by (simp add: workOne_def)
qed

theorem C2_failJob_witness:
  "getJob 1 db2 = Some job1
   \<and> (\<exists>j'. getJob 1 (failJob 200 201 1 0 ''boom'' 3 5 db2) = Some j'
         \<and> attempts j' = 1 \<and> last_error j' = Some ''boom''
         \<and> status j' = Queued \<and> available_at j' = 205 \<and> updated_at j' = 201)
   \<and> (\<exists>j'. getJob 1 (failJob 200 201 1 2 ''boom'' 3 5 db2) = Some j'
         \<and> attempts j' = 1 \<and> status j' = Failed \<and> available_at j' = 200)
   \<and> getJob 2 (failJob 200 201 1 0 ''boom'' 3 5 db2) = Some job2"
proof -
  have g1: "getJob 1 db2 = Some job1" and g2: "getJob 2 db2 = Some job2"
    by (simp_all add: getJob_def db2_def job1_def job2_def)
  have a: "attempts job1 = 0" by (simp add: job1_def)
  from C2_failJob_retry_or_fail [where i = 1 and d = db2 and j = job1 and js_now = 200
      and now = 201 and att = 0 and err = "''boom''" and maxAttempts = 3 and backoff = 5
      and i' = 2 and c = "\<lparr>MAX_ATTEMPTS = 3\<rparr>" and backoffSeconds = "\<lambda>n. 5"
      and res = Transcribed and r = "row_of job1" and msg = "''boom''"] g1 g2 a
  have r: "(\<exists>j'. getJob 1 (failJob 200 201 1 0 ''boom'' 3 5 db2) = Some j'
         \<and> attempts j' = 1 \<and> last_error j' = Some ''boom''
         \<and> status j' = Queued \<and> available_at j' = 205 \<and> updated_at j' = 201)
       \<and> getJob 2 (failJob 200 201 1 0 ''boom'' 3 5 db2) = Some job2"
    by auto
  from C2_failJob_retry_or_fail [where i = 1 and d = db2 and j = job1 and js_now = 200
      and now = 201 and att = 2 and err = "''boom''" and maxAttempts = 3 and backoff = 5
      and i' = 2 and c = "\<lparr>MAX_ATTEMPTS = 3\<rparr>" and backoffSeconds = "\<lambda>n. 5"
      and res = Transcribed and r = "row_of job1" and msg = "''boom''"] g1 a
  have f: "\<exists>j'. getJob 1 (failJob 200 201 1 2 ''boom'' 3 5 db2) = Some j'
         \<and> attempts j' = 1 \<and> status j' = Failed \<and> available_at j' = 200"
    by auto
  from g1 r f show ?thesis by simp
qed

subsection \<open>Retention sweep\<close>

lemma purge_status_jobs:
  "purge_status s now age d =
     (length (filter (\<lambda>j. status j = s \<and> updated_at j \<le> now - age) (jobs d)),
      d\<lparr>jobs := filter (\<lambda>j. \<not> (status j = s \<and> updated_at j \<le> now - age)) (jobs d)\<rparr>)"
  by (simp add: purge_status_def)

lemma length_filter_one:
  "distinct (map job_id xs) \<Longrightarrow> j \<in> set xs \<Longrightarrow> job_id j = i \<Longrightarrow>
   length (filter (\<lambda>k. job_id k = i) xs) = 1"
proof (induction xs)
  case Nil
  then show ?case by simp
next
  case (Cons x xs)
  show ?case
  proof (cases "x = j")
    case True
    from Cons.prems True have "job_id j \<notin> job_id ` set xs" by simp
    with Cons.prems(3) have "\<forall>k \<in> set xs. job_id k \<noteq> i" by (metis imageI)
    then have "filter (\<lambda>k. job_id k = i) xs = []" by (simp add: filter_empty_conv)
    with True Cons.prems show ?thesis by simp
  next
    case False
    with Cons.prems have "j \<in> set xs" "job_id x \<noteq> i" by auto
    with Cons show ?thesis by simp
  qed
qed

lemma purgeOldJobs_eq:
  "purgeOldJobs now days d =
     ((length (filter (\<lambda>j. status j = Done \<and> updated_at j \<le> now - days * 86400) (jobs d)),
       length (filter (\<lambda>j. status j = Failed \<and> updated_at j \<le> now - days * 86400) (jobs d))),
      d\<lparr>jobs := filter (\<lambda>j. \<not> ((status j = Done \<or> status j = Failed)
                                 \<and> updated_at j \<le> now - days * 86400)) (jobs d)\<rparr>)"
proof -
  let ?D = "\<lambda>j. status j = Done \<and> updated_at j \<le> now - days * 86400"
  let ?F = "\<lambda>j. status j = Failed \<and> updated_at j \<le> now - days * 86400"
  have age: "days * 24 * 60 * 60 = days * 86400" by simp
  have p: "purgeOldJobs now days d =
     ((length (filter ?D (jobs d)), length (filter ?F (filter (\<lambda>j. \<not> ?D j) (jobs d)))),
      d\<lparr>jobs := filter (\<lambda>j. \<not> ?F j) (filter (\<lambda>j. \<not> ?D j) (jobs d))\<rparr>)"
    unfolding purgeOldJobs_def purge_status_jobs Let_def age by (simp del: filter_filter)
  have ff: "filter ?F (filter (\<lambda>j. \<not> ?D j) (jobs d)) = filter ?F (jobs d)"
    unfolding filter_filter by (rule filter_cong) auto
  have fj: "filter (\<lambda>j. \<not> ?F j) (filter (\<lambda>j. \<not> ?D j) (jobs d))
            = filter (\<lambda>j. \<not> ((status j = Done \<or> status j = Failed)
                                 \<and> updated_at j \<le> now - days * 86400)) (jobs d)"
    unfolding filter_filter by (rule filter_cong) auto
  show ?thesis unfolding p ff fj ..
qed

lemma length_filter_disjoint:
  "length (filter P xs) + length (filter Q xs) + length (filter (\<lambda>x. \<not> (P x \<or> Q x)) xs)
   = length xs" if "\<And>x. \<not> (P x \<and> Q x)"
  using that by (induction xs) auto

lemma completeJob_rows:
  "jobs (completeJob t i d) =
   map (\<lambda>j. if job_id j = i then j\<lparr>status := Done, updated_at := t, last_error := None\<rparr> else j)
     (jobs d)"
  by (simp add: completeJob_def markDone_def)

text \<open>
  C9. \<open>purgeOldJobs\<close> removes exactly the rows that are done or failed and whose
  \<open>updated_at\<close> is at least \<open>days\<close> days (of 86400 seconds) old, keeps every other row
  unchanged and in order, and returns how many done rows and how many failed rows it
  removed. With \<open>days = 0\<close>, a job completed at or before the sweep is removed, and when
  no other done row exists the count of done rows removed is 1.
\<close>

theorem C9_purgeOldJobs:
  "(purgeOldJobs now days d = ((dn, fl), d') \<longrightarrow>
      jobs d' = filter (\<lambda>j. \<not> ((status j = Done \<or> status j = Failed)
                               \<and> updated_at j \<le> now - days * 86400)) (jobs d)
    \<and> dn = length (filter (\<lambda>j. status j = Done \<and> updated_at j \<le> now - days * 86400) (jobs d))
    \<and> fl = length (filter (\<lambda>j. status j = Failed \<and> updated_at j \<le> now - days * 86400) (jobs d))
    \<and> dn + fl + length (jobs d') = length (jobs d)
    \<and> folders d' = folders d \<and> seq d' = seq d)
   \<and> (getJob i d = Some j \<and> t \<le> now \<longrightarrow>
        getJob i (snd (purgeOldJobs now 0 (completeJob t i d))) = None
      \<and> (distinct_ids d \<and> (\<forall>k \<in> set (jobs d). job_id k \<noteq> i \<longrightarrow> status k \<noteq> Done) \<longrightarrow>
           fst (fst (purgeOldJobs now 0 (completeJob t i d))) = 1))"
proof (intro conjI impI)
  let ?D = "\<lambda>j. status j = Done \<and> updated_at j \<le> now - days * 86400"
  let ?F = "\<lambda>j. status j = Failed \<and> updated_at j \<le> now - days * 86400"
  let ?T = "\<lambda>j. \<not> ((status j = Done \<or> status j = Failed) \<and> updated_at j \<le> now - days * 86400)"
  assume p: "purgeOldJobs now days d = ((dn, fl), d')"
  from p [unfolded purgeOldJobs_eq] have dn: "dn = length (filter ?D (jobs d))"
    and fl: "fl = length (filter ?F (jobs d))"
    and d': "d' = d\<lparr>jobs := filter ?T (jobs d)\<rparr>"
    by simp_all
  show "jobs d' = filter ?T (jobs d)" by (simp add: d')
  show "dn = length (filter ?D (jobs d))" by (rule dn)
  show "fl = length (filter ?F (jobs d))" by (rule fl)
  have "length (filter ?D (jobs d)) + length (filter ?F (jobs d))
        + length (filter (\<lambda>j. \<not> (?D j \<or> ?F j)) (jobs d)) = length (jobs d)"
    by (rule length_filter_disjoint) simp
  moreover have "filter (\<lambda>j. \<not> (?D j \<or> ?F j)) (jobs d) = filter ?T (jobs d)"
    by (rule filter_cong) auto
  ultimately show "dn + fl + length (jobs d') = length (jobs d)"
    by (simp add: dn fl d')
  show "folders d' = folders d" by (simp add: d')
  show "seq d' = seq d" by (simp add: d')
next
  assume a: "getJob i d = Some j \<and> t \<le> now"
  have "job_id x \<noteq> i" if x: "x \<in> set (jobs (snd (purgeOldJobs now 0 (completeJob t i d))))" for x
  proof
    assume e: "job_id x = i"
    from x have x1: "x \<in> set (jobs (completeJob t i d))"
      and x2: "\<not> ((status x = Done \<or> status x = Failed) \<and> updated_at x \<le> now)"
      by (simp_all add: purgeOldJobs_eq)
    from x1 obtain y where "y \<in> set (jobs d)"
      and "x = (if job_id y = i then y\<lparr>status := Done, updated_at := t, last_error := None\<rparr> else y)"
      unfolding completeJob_rows by auto
    with e have "status x = Done \<and> updated_at x = t" by (cases "job_id y = i") simp_all
    with x2 a show False by simp
  qed
  then show "getJob i (snd (purgeOldJobs now 0 (completeJob t i d))) = None"
    unfolding getJob_def find_None_iff by blast
next
  assume a: "getJob i d = Some j \<and> t \<le> now"
    and b: "distinct_ids d \<and> (\<forall>k \<in> set (jobs d). job_id k \<noteq> i \<longrightarrow> status k \<noteq> Done)"
  from a have jin: "j \<in> set (jobs d)" and jid: "job_id j = i"
    by (auto simp: getJob_def find_Some_iff)
  let ?f = "\<lambda>j. if job_id j = i then j\<lparr>status := Done, updated_at := t, last_error := None\<rparr> else j"
  have "fst (fst (purgeOldJobs now 0 (completeJob t i d)))
        = length (filter (\<lambda>k. status k = Done \<and> updated_at k \<le> now) (map ?f (jobs d)))"
    unfolding purgeOldJobs_eq completeJob_rows by simp
  also have "\<dots> = length (filter (\<lambda>k. status (?f k) = Done \<and> updated_at (?f k) \<le> now) (jobs d))"
    by (simp only: filter_map length_map comp_def)
  also have "filter (\<lambda>k. status (?f k) = Done \<and> updated_at (?f k) \<le> now) (jobs d)
             = filter (\<lambda>k. job_id k = i) (jobs d)"
    using a b by (intro filter_cong) auto
  also have "length (filter (\<lambda>k. job_id k = i) (jobs d)) = 1"
    using b jin jid by (intro length_filter_one [of _ j]) (simp_all add: distinct_ids_def)
  finally show "fst (fst (purgeOldJobs now 0 (completeJob t i d))) = 1" .
qed

theorem C9_purgeOldJobs_witness:
  "purgeOldJobs 150 0 (completeJob 150 1 db1) = ((1, 0), db1\<lparr>jobs := []\<rparr>)
   \<and> getJob 1 db1 = Some job1
   \<and> getJob 1 (snd (purgeOldJobs 150 0 (completeJob 150 1 db1))) = None
   \<and> fst (fst (purgeOldJobs 150 0 (completeJob 150 1 db1))) = 1
   \<and> length (jobs (completeJob 150 1 db1)) = 1"
proof -
  have p: "purgeOldJobs 150 0 (completeJob 150 1 db1) = ((1, 0), db1\<lparr>jobs := []\<rparr>)"
    by (simp add: purgeOldJobs_def purge_status_def completeJob_def markDone_def db1_def job1_def)
  have g: "getJob 1 db1 = Some job1"
    by (simp add: getJob_def db1_def job1_def)
  have w: "distinct_ids db1 \<and> (\<forall>k \<in> set (jobs db1). job_id k \<noteq> 1 \<longrightarrow> status k \<noteq> Done)"
    by (simp add: distinct_ids_def db1_def job1_def)
  from C9_purgeOldJobs [where now = 150 and days = 0 and d = "completeJob 150 1 db1"
      and dn = 1 and fl = 0 and d' = "db1\<lparr>jobs := []\<rparr>" and i = 0 and j = job1 and t = 0] p
  have a: "1 + 0 + length (jobs (db1\<lparr>jobs := []\<rparr>)) = length (jobs (completeJob 150 1 db1))"
    by simp
  from C9_purgeOldJobs [where now = 150 and days = 0 and d = db1
      and dn = 0 and fl = 0 and d' = db1 and i = 1 and j = job1 and t = 150] g w
  have b: "getJob 1 (snd (purgeOldJobs 150 0 (completeJob 150 1 db1))) = None
     \<and> fst (fst (purgeOldJobs 150 0 (completeJob 150 1 db1))) = 1"
    by simp
  from p g a b show ?thesis by simp
qed

subsection \<open>Selection and claiming\<close>

lemma claim_order_less: "claim_order a < claim_order b \<longleftrightarrow> precedes a b"
  by (auto simp: claim_order_def precedes_def less_prod_def)

lemma claim_order_inj: "claim_order a = claim_order b \<Longrightarrow> job_id a = job_id b"
  by (simp add: claim_order_def)

lemma distinct_claim_order:
  assumes "distinct (map job_id ys)"
  shows "distinct (map claim_order ys)"
proof -
  from assms have d: "distinct ys" and i: "inj_on job_id (set ys)"
    by (simp_all add: distinct_map)
  have "inj_on claim_order (set ys)"
  proof (rule inj_onI)
    fix a b assume "a \<in> set ys" "b \<in> set ys" "claim_order a = claim_order b"
    with i show "a = b" by (meson claim_order_inj inj_onD)
  qed
  with d show ?thesis by (simp add: distinct_map)
qed

lemma distinct_ids_sort_filter:
  assumes "distinct (map job_id xs)"
  shows "distinct (map job_id (sort_key f (filter P xs)))"
proof -
  from assms have "distinct xs" "inj_on job_id (set xs)" by (simp_all add: distinct_map)
  then have "distinct (sort_key f (filter P xs))"
    and "inj_on job_id (set (sort_key f (filter P xs)))"
    by (auto intro: inj_on_subset)
  then show ?thesis by (simp add: distinct_map)
qed

lemma precedes_sorted:
  assumes "distinct (map job_id xs)"
  shows "sorted_wrt precedes (sort_key claim_order (filter P xs))"
proof -
  let ?ys = "sort_key claim_order (filter P xs)"
  have "sorted (map claim_order ?ys)" by (rule sorted_sort_key)
  moreover have "distinct (map claim_order ?ys)"
    by (rule distinct_claim_order) (rule distinct_ids_sort_filter [OF assms])
  ultimately have "sorted_wrt (<) (map claim_order ?ys)"
    by (simp add: strict_sorted_iff)
  then show ?thesis
    by (simp add: sorted_wrt_map claim_order_less)
qed

lemma take_sorted_mem:
  fixes f :: "'a \<Rightarrow> 'k::order"
  assumes "sorted_wrt (\<lambda>a b. f a < f b) ys"
  shows "x \<in> set (take n ys) \<longleftrightarrow> x \<in> set ys \<and> length (filter (\<lambda>y. f y < f x) ys) < n"
  using assms
proof (induction ys arbitrary: n)
  case Nil
  show ?case by simp
next
  case (Cons y ys)
  from Cons.prems have all: "\<forall>z \<in> set ys. f y < f z"
    and s: "sorted_wrt (\<lambda>a b. f a < f b) ys" by simp_all
  show ?case
  proof (cases n)
    case 0
    then show ?thesis by simp
  next
    case (Suc m)
    note IH = Cons.IH [OF s, of m]
    show ?thesis
    proof (cases "x = y")
      case True
      from all have "\<forall>z \<in> set ys. \<not> f z < f y"
        by (meson order_less_asym)
      then have "filter (\<lambda>z. f z < f y) ys = []"
        by (simp add: filter_empty_conv)
      with True Suc show ?thesis by simp
    next
      case False
      show ?thesis
      proof (cases "x \<in> set ys")
        case True
        with all have "f y < f x" by blast
        with False True Suc IH show ?thesis by simp
      next
        case False
        with \<open>x \<noteq> y\<close> Suc show ?thesis
          by (auto dest: in_set_takeD)
      qed
    qed
  qed
qed

lemma candidates_mem:
  assumes "distinct (map job_id (jobs d))"
  shows "j \<in> set (candidates now limit d) \<longleftrightarrow>
         j \<in> set (jobs d) \<and> eligible now j
         \<and> (limit < 0 \<or> length (filter (\<lambda>k. eligible now k \<and> precedes k j) (jobs d)) < nat limit)"
proof -
  let ?ys = "sort_key claim_order (filter (eligible now) (jobs d))"
  have s: "sorted_wrt (\<lambda>a b. claim_order a < claim_order b) ?ys"
    using precedes_sorted [OF assms, of "eligible now"] by (simp add: claim_order_less)
  have "length (filter (\<lambda>y. claim_order y < claim_order j) ?ys)
        = length (filter (\<lambda>y. claim_order y < claim_order j) (filter (eligible now) (jobs d)))"
    by (simp only: filter_sort length_sort)
  also have "\<dots> = length (filter (\<lambda>k. eligible now k \<and> precedes k j) (jobs d))"
    by (simp add: claim_order_less conj_commute)
  finally have len: "length (filter (\<lambda>y. claim_order y < claim_order j) ?ys)
        = length (filter (\<lambda>k. eligible now k \<and> precedes k j) (jobs d))" .
  show ?thesis
  proof (cases "limit < 0")
    case True
    then show ?thesis by (simp add: candidates_def sql_limit_def)
  next
    case False
    then have "candidates now limit d = take (nat limit) ?ys"
      by (simp add: candidates_def sql_limit_def)
    with take_sorted_mem [OF s, of j "nat limit"] len False show ?thesis by simp
  qed
qed

lemma candidates_props:
  assumes "distinct (map job_id (jobs d))"
  shows "sorted_wrt precedes (candidates now limit d)"
    and "distinct (map job_id (candidates now limit d))"
    and "\<forall>j \<in> set (candidates now limit d). j \<in> set (jobs d) \<and> eligible now j"
    and "0 \<le> limit \<Longrightarrow> length (candidates now limit d) \<le> nat limit"
proof -
  let ?ys = "sort_key claim_order (filter (eligible now) (jobs d))"
  have c: "candidates now limit d = ?ys \<or> candidates now limit d = take (nat limit) ?ys"
    by (simp add: candidates_def sql_limit_def)
  have s: "sorted_wrt precedes ?ys" by (rule precedes_sorted [OF assms])
  have di: "distinct (map job_id ?ys)" by (rule distinct_ids_sort_filter [OF assms])
  from c s show "sorted_wrt precedes (candidates now limit d)"
    by (auto intro: sorted_wrt_take)
  from c di show "distinct (map job_id (candidates now limit d))"
    by (auto simp: take_map [symmetric] intro: distinct_take)
  have "set (candidates now limit d) \<subseteq> set ?ys"
    using c set_take_subset [of "nat limit" ?ys] by auto
  then show "\<forall>j \<in> set (candidates now limit d). j \<in> set (jobs d) \<and> eligible now j"
    by auto
  show "length (candidates now limit d) \<le> nat limit" if "0 \<le> limit"
    using that by (simp add: candidates_def sql_limit_def)
qed
lemma same_id_same_row:
  "distinct (map job_id xs) \<Longrightarrow> a \<in> set xs \<Longrightarrow> b \<in> set xs \<Longrightarrow> job_id a = job_id b \<Longrightarrow> a = b"
  by (meson distinct_map inj_onD)

lemma mark_row_fields:
  "status (mark_row now j) = Processing" "updated_at (mark_row now j) = now"
  "job_id (mark_row now j) = job_id j" "attempts (mark_row now j) = attempts j"
  "available_at (mark_row now j) = available_at j" "priority (mark_row now j) = priority j"
  "last_error (mark_row now j) = last_error j" "folder (mark_row now j) = folder j"
  "image_path (mark_row now j) = image_path j" "text_path (mark_row now j) = text_path j"
  "created_at (mark_row now j) = created_at j"
  "mark_row now (mark_row now j) = mark_row now j"
  by (simp_all add: mark_row_def)

lemma markProcessing_one:
  assumes d: "distinct (map job_id (jobs d))" and c: "c \<in> set (jobs d)" and q: "status c = Queued"
  shows "markProcessing now (job_id c) d =
         (1, d\<lparr>jobs := map (\<lambda>j. if job_id j = job_id c then mark_row now j else j) (jobs d)\<rparr>)"
proof -
  have same: "j = c" if "j \<in> set (jobs d)" "job_id j = job_id c" for j
    using same_id_same_row [OF d that(1) c that(2)] .
  have "filter (\<lambda>j. job_id j = job_id c \<and> status j = Queued) (jobs d)
        = filter (\<lambda>j. job_id j = job_id c) (jobs d)"
    using same q by (intro filter_cong) auto
  then have n: "length (filter (\<lambda>j. job_id j = job_id c \<and> status j = Queued) (jobs d)) = 1"
    using length_filter_one [OF d c refl] by simp
  have m: "map (\<lambda>j. if job_id j = job_id c \<and> status j = Queued
                     then j\<lparr>status := Processing, updated_at := now\<rparr> else j) (jobs d)
           = map (\<lambda>j. if job_id j = job_id c then mark_row now j else j) (jobs d)"
    using same q by (intro map_cong) (auto simp: mark_row_def)
  show ?thesis unfolding markProcessing_def n m ..
qed

lemma claim_loop_all:
  assumes "distinct (map job_id (jobs d))" "distinct (map job_id cs)"
    and "\<forall>c \<in> set cs. c \<in> set (jobs d) \<and> status c = Queued"
  shows "claim_loop now (map row_of cs) acc d =
         (acc @ map row_of cs,
          d\<lparr>jobs := map (\<lambda>j. if job_id j \<in> job_id ` set cs then mark_row now j else j) (jobs d)\<rparr>)"
  using assms
proof (induction cs arbitrary: acc d)
  case Nil
  show ?case by simp
next
  case (Cons c cs)
  let ?m = "\<lambda>j. if job_id j = job_id c then mark_row now j else j"
  let ?d1 = "d\<lparr>jobs := map ?m (jobs d)\<rparr>"
  from Cons.prems have c: "c \<in> set (jobs d)" "status c = Queued" by simp_all
  have mp: "markProcessing now (job_id c) d = (1, ?d1)"
    by (rule markProcessing_one [OF Cons.prems(1) c])
  have ids: "map job_id (map ?m (jobs d)) = map job_id (jobs d)"
    by (simp add: mark_row_fields comp_def)
  have d1: "distinct (map job_id (jobs ?d1))"
  proof -
    have "jobs ?d1 = map ?m (jobs d)" by simp
    with ids Cons.prems(1) show ?thesis by (simp only:)
  qed
  have dc: "distinct (map job_id cs)" using Cons.prems(2) by simp
  have rest: "\<forall>c' \<in> set cs. c' \<in> set (jobs ?d1) \<and> status c' = Queued"
  proof
    fix c' assume m: "c' \<in> set cs"
    with Cons.prems(3) have in_d: "c' \<in> set (jobs d)" "status c' = Queued"
      by simp_all
    from Cons.prems(2) have "job_id c \<notin> job_id ` set cs" by simp
    with m have "job_id c' \<noteq> job_id c" by (metis imageI)
    with in_d have "c' = ?m c'" "c' \<in> set (jobs d)" by simp_all
    then have "c' \<in> ?m ` set (jobs d)" by (rule image_eqI)
    with \<open>status c' = Queued\<close> show "c' \<in> set (jobs ?d1) \<and> status c' = Queued" by simp
  qed
  have comp: "map (\<lambda>j. if job_id j \<in> job_id ` set cs then mark_row now j else j) (map ?m (jobs d))
              = map (\<lambda>j. if job_id j \<in> job_id ` set (c # cs) then mark_row now j else j) (jobs d)"
    by (simp add: mark_row_fields)
  have "claim_loop now (map row_of (c # cs)) acc d
        = claim_loop now (map row_of cs) (acc @ [row_of c]) ?d1"
    by (simp add: mp row_of_def)
  also have "\<dots> = ((acc @ [row_of c]) @ map row_of cs,
       ?d1\<lparr>jobs := map (\<lambda>j. if job_id j \<in> job_id ` set cs then mark_row now j else j) (jobs ?d1)\<rparr>)"
    by (rule Cons.IH [OF d1 dc rest])
  also have "\<dots> = (acc @ map row_of (c # cs),
       d\<lparr>jobs := map (\<lambda>j. if job_id j \<in> job_id ` set (c # cs) then mark_row now j else j) (jobs d)\<rparr>)"
    using comp by simp
  finally show ?case .
qed

lemma requeue_ids:
  "map job_id (jobs (snd (requeueStaleJobs now stale d))) = map job_id (jobs d)"
  by (simp add: requeueStaleJobs_def requeue_row_def comp_def if_distrib cong: if_cong)

lemma claimJobs_eq:
  assumes "distinct_ids d"
  shows "claimJobs now stale limit d =
     (map row_of (candidates now limit (snd (requeueStaleJobs now stale d))),
      (snd (requeueStaleJobs now stale d))
        \<lparr>jobs := map (\<lambda>j. if job_id j \<in> job_id ` set (candidates now limit (snd (requeueStaleJobs now stale d)))
                            then mark_row now j else j)
                      (jobs (snd (requeueStaleJobs now stale d)))\<rparr>)"
proof -
  let ?d1 = "snd (requeueStaleJobs now stale d)"
  from assms have d1: "distinct (map job_id (jobs ?d1))"
    by (simp only: requeue_ids distinct_ids_def)
  have "claimJobs now stale limit d = claim_loop now (map row_of (candidates now limit ?d1)) [] ?d1"
    by (simp add: claimJobs_def claimStmt_def split: prod.split)
  also have "\<dots> = ([] @ map row_of (candidates now limit ?d1),
      ?d1\<lparr>jobs := map (\<lambda>j. if job_id j \<in> job_id ` set (candidates now limit ?d1)
                            then mark_row now j else j) (jobs ?d1)\<rparr>)"
    using candidates_props [OF d1, of now limit]
    by (intro claim_loop_all [OF d1]) (auto simp: eligible_def)
  finally show ?thesis by simp
qed

lemma candidates_prefix:
  assumes "distinct (map job_id (jobs d))"
    and "k \<in> set (jobs d)" "eligible now k" "k \<notin> set (candidates now limit d)"
    and "j \<in> set (candidates now limit d)"
  shows "precedes j k"
proof -
  let ?ys = "sort_key claim_order (filter (eligible now) (jobs d))"
  have s: "sorted_wrt precedes ?ys" by (rule precedes_sorted [OF assms(1)])
  from assms(2,3) have k: "k \<in> set ?ys" by simp
  show ?thesis
  proof (cases "limit < 0")
    case True
    with assms(4) k show ?thesis by (simp add: candidates_def sql_limit_def)
  next
    case False
    then have c: "candidates now limit d = take (nat limit) ?ys"
      by (simp add: candidates_def sql_limit_def)
    have "set ?ys = set (take (nat limit) ?ys) \<union> set (drop (nat limit) ?ys)"
      by (metis append_take_drop_id set_append)
    with k assms(4) c have kd: "k \<in> set (drop (nat limit) ?ys)" by auto
    from s have "sorted_wrt precedes (take (nat limit) ?ys @ drop (nat limit) ?ys)" by simp
    then have "\<forall>a \<in> set (take (nat limit) ?ys). \<forall>b \<in> set (drop (nat limit) ?ys). precedes a b"
      unfolding sorted_wrt_append by blast
    with kd assms(5) c show ?thesis by simp
  qed
qed

lemma candidates_length:
  "0 \<le> limit \<Longrightarrow>
   length (candidates now limit d) = min (nat limit) (length (filter (eligible now) (jobs d)))"
  by (simp add: candidates_def sql_limit_def min_def)

lemma candidates_unbounded:
  "limit < 0 \<Longrightarrow> set (candidates now limit d) = {j \<in> set (jobs d). eligible now j}"
  by (auto simp: candidates_def sql_limit_def)

text \<open>
  C4. On a table with distinct ids, \<open>claimJobs\<close> returns the selected rows in the order
  of selection. Every selected job is, after stale recovery, queued with
  \<open>available_at \<le> now\<close>; the selected jobs are ordered by priority descending, then
  \<open>available_at\<close> ascending, then id ascending; they are the first of all eligible jobs in
  that order (an eligible job left out comes after every selected one); and for a
  limit \<open>\<ge> 0\<close> they are \<open>min limit (number of eligible jobs)\<close> many, so at most
  \<open>limit\<close> (a negative limit, which SQLite reads as no limit, selects all eligible jobs).
  With two eligible jobs of priorities 5 and 1 in one folder, whichever was
  enqueued first, \<open>claimJobs 1\<close> returns the job of priority 5.
\<close>

theorem C4_claim_selection:
  "(distinct_ids d \<and> d1 = snd (requeueStaleJobs now stale d) \<longrightarrow>
      (\<exists>cs. fst (claimJobs now stale limit d) = map row_of cs
         \<and> (\<forall>j \<in> set cs. j \<in> set (jobs d1) \<and> status j = Queued \<and> available_at j \<le> now)
         \<and> sorted_wrt precedes cs
         \<and> (\<forall>k \<in> set (jobs d1). status k = Queued \<and> available_at k \<le> now \<and> k \<notin> set cs \<longrightarrow>
               (\<forall>j \<in> set cs. precedes j k))
         \<and> (0 \<le> limit \<longrightarrow>
               length cs \<le> nat limit
             \<and> length cs = min (nat limit)
                 (length (filter (\<lambda>k. status k = Queued \<and> available_at k \<le> now) (jobs d1))))
         \<and> (limit < 0 \<longrightarrow>
               set cs = {k \<in> set (jobs d1). status k = Queued \<and> available_at k \<le> now})))
   \<and> (ta \<le> now \<and> tb \<le> now \<longrightarrow>
        fst (claimJobs now stale 1
              (enqueueJob tb sb ''X'' ipb tpb 1 0 (enqueueJob ta sa ''X'' ipa tpa 5 0 empty_db)))
          = [\<lparr>r_id = 1, r_folder = ''X'', r_image_path = ipa, r_text_path = tpa, r_attempts = 0\<rparr>]
      \<and> fst (claimJobs now stale 1
              (enqueueJob tb sb ''X'' ipb tpb 5 0 (enqueueJob ta sa ''X'' ipa tpa 1 0 empty_db)))
          = [\<lparr>r_id = 2, r_folder = ''X'', r_image_path = ipb, r_text_path = tpb, r_attempts = 0\<rparr>])"
proof (intro conjI impI)
  assume a: "distinct_ids d \<and> d1 = snd (requeueStaleJobs now stale d)"
  then have di: "distinct (map job_id (jobs d1))"
    by (simp add: requeue_ids distinct_ids_def)
  let ?cs = "candidates now limit d1"
  have el: "eligible now = (\<lambda>k. status k = Queued \<and> available_at k \<le> now)"
    by (simp add: fun_eq_iff eligible_def)
  have 1: "fst (claimJobs now stale limit d) = map row_of ?cs"
    using a by (simp add: claimJobs_eq)
  have 2: "\<forall>j \<in> set ?cs. j \<in> set (jobs d1) \<and> status j = Queued \<and> available_at j \<le> now"
    using candidates_props(3) [OF di, of now limit] by (simp add: eligible_def)
  have 3: "sorted_wrt precedes ?cs" by (rule candidates_props(1) [OF di])
  have 4: "\<forall>k \<in> set (jobs d1). status k = Queued \<and> available_at k \<le> now \<and> k \<notin> set ?cs \<longrightarrow>
               (\<forall>j \<in> set ?cs. precedes j k)"
    using candidates_prefix [OF di, of _ now limit] by (simp add: eligible_def)
  have 5: "0 \<le> limit \<longrightarrow> length ?cs \<le> nat limit
             \<and> length ?cs = min (nat limit)
                 (length (filter (\<lambda>k. status k = Queued \<and> available_at k \<le> now) (jobs d1)))"
    using candidates_length [of limit now d1] by (simp add: el)
  have 6: "limit < 0 \<longrightarrow>
             set ?cs = {k \<in> set (jobs d1). status k = Queued \<and> available_at k \<le> now}"
    using candidates_unbounded [of limit now d1] by (simp add: eligible_def)
  from 1 2 3 4 5 6
  show "\<exists>cs. fst (claimJobs now stale limit d) = map row_of cs
         \<and> (\<forall>j \<in> set cs. j \<in> set (jobs d1) \<and> status j = Queued \<and> available_at j \<le> now)
         \<and> sorted_wrt precedes cs
         \<and> (\<forall>k \<in> set (jobs d1). status k = Queued \<and> available_at k \<le> now \<and> k \<notin> set cs \<longrightarrow>
               (\<forall>j \<in> set cs. precedes j k))
         \<and> (0 \<le> limit \<longrightarrow>
               length cs \<le> nat limit
             \<and> length cs = min (nat limit)
                 (length (filter (\<lambda>k. status k = Queued \<and> available_at k \<le> now) (jobs d1))))
         \<and> (limit < 0 \<longrightarrow>
               set cs = {k \<in> set (jobs d1). status k = Queued \<and> available_at k \<le> now})"
    by (intro exI [of _ ?cs] conjI)
next
  assume "ta \<le> now \<and> tb \<le> now"
  then show "fst (claimJobs now stale 1
              (enqueueJob tb sb ''X'' ipb tpb 1 0 (enqueueJob ta sa ''X'' ipa tpa 5 0 empty_db)))
          = [\<lparr>r_id = 1, r_folder = ''X'', r_image_path = ipa, r_text_path = tpa, r_attempts = 0\<rparr>]"
    by (simp add: claimJobs_def requeueStaleJobs_def enqueueJob_def empty_db_def
        is_stale_def claimStmt_def candidates_def eligible_def sql_limit_def claim_order_def
        row_of_def markProcessing_def less_eq_prod_def)
next
  assume "ta \<le> now \<and> tb \<le> now"
  then show "fst (claimJobs now stale 1
              (enqueueJob tb sb ''X'' ipb tpb 5 0 (enqueueJob ta sa ''X'' ipa tpa 1 0 empty_db)))
          = [\<lparr>r_id = 2, r_folder = ''X'', r_image_path = ipb, r_text_path = tpb, r_attempts = 0\<rparr>]"
    by (simp add: claimJobs_def requeueStaleJobs_def enqueueJob_def empty_db_def
        is_stale_def claimStmt_def candidates_def eligible_def sql_limit_def claim_order_def
        row_of_def markProcessing_def less_eq_prod_def)
qed
theorem C4_claim_selection_witness:
  "distinct_ids db3
   \<and> fst (claimJobs 1000 900 1 db3) = [row_of jobB]
   \<and> (\<exists>cs. fst (claimJobs 1000 900 1 db3) = map row_of cs \<and> length cs = 1
         \<and> (\<forall>j \<in> set cs. status j = Queued \<and> available_at j \<le> 1000))
   \<and> fst (claimJobs 1000 900 1
            (enqueueJob 101 102 ''X'' ''b.png'' ''b.txt'' 1 0
               (enqueueJob 100 100 ''X'' ''a.png'' ''a.txt'' 5 0 empty_db)))
        = [\<lparr>r_id = 1, r_folder = ''X'', r_image_path = ''a.png'', r_text_path = ''a.txt'',
            r_attempts = 0\<rparr>]"
proof -
  have di: "distinct_ids db3"
    by (simp add: distinct_ids_def db3_def jobA_def jobB_def jobC_def)
  have r: "snd (requeueStaleJobs 1000 900 db3) = db3"
    by (simp add: requeueStaleJobs_def db3_def is_stale_def jobA_def jobB_def jobC_def)
  have n: "length (filter (\<lambda>k. status k = Queued \<and> available_at k \<le> 1000) (jobs db3)) = 2"
    by (simp add: db3_def jobA_def jobB_def jobC_def)
  have e: "fst (claimJobs 1000 900 1 db3) = [row_of jobB]"
    by (simp add: claimJobs_def requeueStaleJobs_def db3_def jobA_def jobB_def jobC_def
        is_stale_def claimStmt_def candidates_def eligible_def sql_limit_def claim_order_def
        markProcessing_def less_eq_prod_def row_of_def)
  have e2: "fst (claimJobs 1000 900 1
            (enqueueJob 101 102 ''X'' ''b.png'' ''b.txt'' 1 0
               (enqueueJob 100 100 ''X'' ''a.png'' ''a.txt'' 5 0 empty_db)))
        = [\<lparr>r_id = 1, r_folder = ''X'', r_image_path = ''a.png'', r_text_path = ''a.txt'',
            r_attempts = 0\<rparr>]"
    using C4_claim_selection [where ta = 100 and sa = 100 and tb = 101 and sb = 102 and now = 1000 and stale = 900 and d = db3
        and ?d1.0 = db3 and limit = 1 and ipa = "''a.png''" and tpa = "''a.txt''"
        and ipb = "''b.png''" and tpb = "''b.txt''"]
    by simp
  from C4_claim_selection [where ta = 100 and sa = 100 and tb = 101 and sb = 102 and now = 1000 and stale = 900 and d = db3
        and ?d1.0 = db3 and limit = 1 and ipa = "''a.png''" and tpa = "''a.txt''"
        and ipb = "''b.png''" and tpb = "''b.txt''"] di r
  obtain cs where cs: "fst (claimJobs 1000 900 1 db3) = map row_of cs"
    and q: "\<forall>j \<in> set cs. j \<in> set (jobs db3) \<and> status j = Queued \<and> available_at j \<le> 1000"
    and l: "length cs = min (nat 1)
              (length (filter (\<lambda>k. status k = Queued \<and> available_at k \<le> 1000) (jobs db3)))"
    by auto
  from l n have "length cs = 1" by simp
  with cs q have "\<exists>cs. fst (claimJobs 1000 900 1 db3) = map row_of cs \<and> length cs = 1
         \<and> (\<forall>j \<in> set cs. status j = Queued \<and> available_at j \<le> 1000)"
    by blast
  with di e e2 show ?thesis by simp
qed

lemma find_by_id:
  "distinct (map job_id xs) \<Longrightarrow> x \<in> set xs \<Longrightarrow> find (\<lambda>y. job_id y = job_id x) xs = Some x"
proof (induction xs)
  case Nil
  then show ?case by simp
next
  case (Cons a xs)
  show ?case
  proof (cases "a = x")
    case True
    then show ?thesis by simp
  next
    case False
    with Cons.prems have x: "x \<in> set xs" and "job_id a \<notin> job_id ` set xs" by simp_all
    then have "job_id a \<noteq> job_id x" by (metis imageI)
    with Cons x show ?thesis by simp
  qed
qed

lemma requeue_jobs:
  "jobs (snd (requeueStaleJobs now stale d)) =
   map (\<lambda>j. if is_stale now stale j then requeue_row now j else j) (jobs d)"
  by (simp add: requeueStaleJobs_def)

lemma row_of_requeue: "row_of (requeue_row now j) = row_of j"
  by (simp add: row_of_def requeue_row_def)

text \<open>
  C10. If, on a table with distinct ids, a job is in status processing with
  \<open>updated_at \<le> now - stale\<close> when \<open>claimJobs\<close> is called, and fewer than \<open>limit\<close>
  jobs that are eligible after stale recovery precede the recovered job in the selection
  order (or the limit is negative, which SQLite reads as no limit), then this call
  returns the job's row: the recovered row is queued with \<open>available_at = now\<close>, so it
  satisfies the selection, and it ends the call in status processing again.
\<close>

theorem C10_stale_job_claimed_in_same_call:
  "distinct_ids d \<and> j \<in> set (jobs d) \<and> status j = Processing \<and> updated_at j \<le> now - stale
   \<and> d1 = snd (requeueStaleJobs now stale d)
   \<and> (limit < 0
      \<or> length (filter (\<lambda>k. status k = Queued \<and> available_at k \<le> now
                               \<and> precedes k (requeue_row now j)) (jobs d1)) < nat limit)
   \<longrightarrow> requeue_row now j \<in> set (jobs d1)
     \<and> status (requeue_row now j) = Queued \<and> available_at (requeue_row now j) = now
     \<and> row_of j \<in> set (fst (claimJobs now stale limit d))
     \<and> getJob (job_id j) (snd (claimJobs now stale limit d))
         = Some (mark_row now (requeue_row now j))"
proof
  assume a: "distinct_ids d \<and> j \<in> set (jobs d) \<and> status j = Processing \<and> updated_at j \<le> now - stale
   \<and> d1 = snd (requeueStaleJobs now stale d)
   \<and> (limit < 0
      \<or> length (filter (\<lambda>k. status k = Queued \<and> available_at k \<le> now
                               \<and> precedes k (requeue_row now j)) (jobs d1)) < nat limit)"
  let ?j = "requeue_row now j"
  let ?cs = "candidates now limit d1"
  from a have d1: "d1 = snd (requeueStaleJobs now stale d)" by simp
  from a have di: "distinct (map job_id (jobs d1))"
    by (simp add: requeue_ids distinct_ids_def)
  from a have st: "is_stale now stale j" by (simp add: is_stale_def)
  have "?j = (\<lambda>j. if is_stale now stale j then requeue_row now j else j) j"
    using st by simp
  moreover from a have "j \<in> set (jobs d)" by simp
  ultimately have m: "?j \<in> set (jobs d1)"
    unfolding d1 requeue_jobs set_map by (rule image_eqI)
  have el: "eligible now ?j" by (simp add: eligible_def requeue_row_fields)
  have el': "(\<lambda>k. eligible now k \<and> precedes k ?j)
             = (\<lambda>k. status k = Queued \<and> available_at k \<le> now \<and> precedes k ?j)"
    by (auto simp: eligible_def)
  from a have "limit < 0 \<or> length (filter (\<lambda>k. status k = Queued \<and> available_at k \<le> now
                               \<and> precedes k ?j) (jobs d1)) < nat limit"
    by blast
  then have "limit < 0 \<or> length (filter (\<lambda>k. eligible now k \<and> precedes k ?j) (jobs d1)) < nat limit"
    unfolding el' .
  with m el have c: "?j \<in> set ?cs"
    using candidates_mem [OF di, of ?j now limit] by simp
  then have "row_of ?j \<in> set (map row_of ?cs)" by simp
  with a have r: "row_of j \<in> set (fst (claimJobs now stale limit d))"
    by (simp add: claimJobs_eq row_of_requeue)
  let ?f = "\<lambda>x. if job_id x \<in> job_id ` set ?cs then mark_row now x else x"
  have "getJob (job_id j) (snd (claimJobs now stale limit d))
        = find (\<lambda>y. job_id y = job_id ?j) (map ?f (jobs d1))"
    using a by (simp add: claimJobs_eq getJob_def requeue_row_fields)
  also have "\<dots> = map_option ?f (find (\<lambda>y. job_id y = job_id ?j) (jobs d1))"
    by (rule find_map_same_id) (simp add: mark_row_fields)
  also have "find (\<lambda>y. job_id y = job_id ?j) (jobs d1) = Some ?j"
    by (rule find_by_id [OF di m])
  also from c have "map_option ?f (Some ?j) = Some (mark_row now ?j)" by simp
  finally have g: "getJob (job_id j) (snd (claimJobs now stale limit d)) = Some (mark_row now ?j)" .
  from m r g show "requeue_row now j \<in> set (jobs d1)
     \<and> status (requeue_row now j) = Queued \<and> available_at (requeue_row now j) = now
     \<and> row_of j \<in> set (fst (claimJobs now stale limit d))
     \<and> getJob (job_id j) (snd (claimJobs now stale limit d))
         = Some (mark_row now (requeue_row now j))"
    by (simp add: requeue_row_fields)
qed

theorem C10_stale_job_claimed_witness:
  "distinct_ids db4 \<and> jobS \<in> set (jobs db4) \<and> status jobS = Processing
   \<and> updated_at jobS \<le> 1000 - 900
   \<and> fst (claimJobs 1000 900 2 db4) = [row_of jobA, row_of jobS]
   \<and> row_of jobS \<in> set (fst (claimJobs 1000 900 2 db4))
   \<and> getJob 4 (snd (claimJobs 1000 900 2 db4)) = Some (mark_row 1000 (requeue_row 1000 jobS))"
proof -
  have di: "distinct_ids db4"
    by (simp add: distinct_ids_def db4_def jobA_def jobS_def)
  have s: "jobS \<in> set (jobs db4)" "status jobS = Processing" "updated_at jobS \<le> 1000 - 900"
    "job_id jobS = 4"
    by (simp_all add: db4_def jobS_def)
  have n: "length (filter (\<lambda>k. status k = Queued \<and> available_at k \<le> 1000
                               \<and> precedes k (requeue_row 1000 jobS))
             (jobs (snd (requeueStaleJobs 1000 900 db4)))) = 1"
    by (simp add: requeueStaleJobs_def db4_def is_stale_def jobA_def jobS_def precedes_def
        requeue_row_def)
  have e: "fst (claimJobs 1000 900 2 db4) = [row_of jobA, row_of jobS]"
    by (simp add: claimJobs_def requeueStaleJobs_def db4_def jobA_def jobS_def
        is_stale_def claimStmt_def candidates_def eligible_def sql_limit_def claim_order_def
        markProcessing_def less_eq_prod_def requeue_row_def row_of_def)
  from C10_stale_job_claimed_in_same_call
    [of db4 jobS 1000 900 "snd (requeueStaleJobs 1000 900 db4)" 2] di s n e
  show ?thesis by simp
qed

subsection \<open>Mutual exclusion of claims\<close>

lemma markProcessing_none:
  assumes "\<forall>j \<in> set (jobs d). job_id j = i \<longrightarrow> status j \<noteq> Queued"
  shows "markProcessing now i d = (0, d)"
proof -
  from assms have "filter (\<lambda>j. job_id j = i \<and> status j = Queued) (jobs d) = []"
    by (auto simp: filter_empty_conv)
  moreover from assms
  have "map (\<lambda>j. if job_id j = i \<and> status j = Queued
                   then j\<lparr>status := Processing, updated_at := now\<rparr> else j) (jobs d) = jobs d"
    by (intro map_idI) auto
  ultimately show ?thesis by (simp add: markProcessing_def)
qed

lemma claimJobs_ids:
  assumes "distinct_ids d"
  shows "map job_id (jobs (snd (claimJobs now stale limit d))) = map job_id (jobs d)"
proof -
  have "map job_id (jobs (snd (claimJobs now stale limit d)))
        = map job_id (jobs (snd (requeueStaleJobs now stale d)))"
    by (simp add: claimJobs_eq [OF assms] comp_def mark_row_fields if_distrib cong: if_cong)
  then show ?thesis by (simp only: requeue_ids)
qed

lemma getJob_after_claim:
  assumes "distinct_ids d" and "c \<in> set (candidates now limit (snd (requeueStaleJobs now stale d)))"
  shows "getJob (job_id c) (snd (claimJobs now stale limit d)) = Some (mark_row now c)"
proof -
  let ?d1 = "snd (requeueStaleJobs now stale d)"
  let ?cs = "candidates now limit ?d1"
  let ?f = "\<lambda>x. if job_id x \<in> job_id ` set ?cs then mark_row now x else x"
  from assms(1) have di: "distinct (map job_id (jobs ?d1))"
    by (simp add: requeue_ids distinct_ids_def)
  from candidates_props(3) [OF di, of now limit] assms(2) have m: "c \<in> set (jobs ?d1)"
    by blast
  have "getJob (job_id c) (snd (claimJobs now stale limit d))
        = find (\<lambda>y. job_id y = job_id c) (map ?f (jobs ?d1))"
    by (simp add: claimJobs_eq [OF assms(1)] getJob_def)
  also have "\<dots> = map_option ?f (find (\<lambda>y. job_id y = job_id c) (jobs ?d1))"
    by (rule find_map_same_id) (simp add: mark_row_fields)
  also have "find (\<lambda>y. job_id y = job_id c) (jobs ?d1) = Some c"
    by (rule find_by_id [OF di m])
  also from assms(2) have "map_option ?f (Some c) = Some (mark_row now c)" by simp
  finally show ?thesis .
qed

lemma getJob_in_jobs: "getJob i d = Some j \<Longrightarrow> j \<in> set (jobs d)"
  by (auto simp: getJob_def find_Some_iff)

lemma not_returned:
  assumes "distinct_ids d" "j \<in> set (jobs d)" "status j \<noteq> Queued" "\<not> is_stale now stale j"
  shows "job_id j \<notin> r_id ` set (fst (claimJobs now stale limit d))"
proof
  let ?d1 = "snd (requeueStaleJobs now stale d)"
  let ?cs = "candidates now limit ?d1"
  assume "job_id j \<in> r_id ` set (fst (claimJobs now stale limit d))"
  then have "job_id j \<in> r_id ` row_of ` set ?cs"
    by (simp add: claimJobs_eq [OF assms(1)])
  then obtain c where c: "c \<in> set ?cs" "job_id j = job_id c"
    by (auto simp: row_of_def)
  from assms(1) have di: "distinct (map job_id (jobs ?d1))"
    by (simp add: requeue_ids distinct_ids_def)
  from candidates_props(3) [OF di, of now limit] c(1)
  have cm: "c \<in> set (jobs ?d1)" and cq: "status c = Queued"
    by (auto simp: eligible_def)
  from assms(4) have "j = (\<lambda>j. if is_stale now stale j then requeue_row now j else j) j"
    by simp
  then have "j \<in> set (jobs ?d1)"
    unfolding requeue_jobs set_map using assms(2) by (rule image_eqI)
  from same_id_same_row [OF di this cm c(2)] cq assms(3) show False by simp
qed

text \<open>
  C1. \<open>markProcessing\<close> changes exactly the rows with the given id whose
  status is queued, and nothing when there is none. On a table with distinct ids,
  \<open>claimJobs\<close> returns exactly the selected rows; for each of them the conditional update
  changes one record, the job is left in status processing with \<open>updated_at = now\<close>, and
  jobs that are not returned keep the row they had after stale recovery. A second
  \<open>claimJobs\<close> made on the resulting table less than the staleness threshold later returns
  none of these jobs, and \<open>markProcessing\<close> on any of them changes zero rows.
\<close>

theorem C1_claim_exclusive:
  "(markProcessing now i d = (n, d') \<longrightarrow>
       n = length (filter (\<lambda>j. job_id j = i \<and> status j = Queued) (jobs d))
     \<and> jobs d' = map (\<lambda>j. if job_id j = i \<and> status j = Queued then mark_row now j else j) (jobs d)
     \<and> ((\<forall>j \<in> set (jobs d). job_id j = i \<longrightarrow> status j \<noteq> Queued) \<longrightarrow> n = 0 \<and> d' = d))
   \<and> (distinct_ids d \<and> d1 = snd (requeueStaleJobs now stale d)
        \<and> claimJobs now stale limit d = (rows, d2) \<longrightarrow>
         rows = claimStmt now limit d1
       \<and> (\<forall>r \<in> set rows. fst (markProcessing now (r_id r) d1) = 1
             \<and> (\<exists>j. getJob (r_id r) d2 = Some j \<and> status j = Processing \<and> updated_at j = now))
       \<and> (\<forall>j \<in> set (jobs d1). job_id j \<notin> r_id ` set rows \<longrightarrow> j \<in> set (jobs d2)))
   \<and> (distinct_ids d \<and> claimJobs now stale limit d = (rows, d2)
        \<and> claimJobs now' stale limit' d2 = (rows', d3) \<and> now' - stale < now \<longrightarrow>
         (\<forall>r \<in> set rows. r_id r \<notin> r_id ` set rows'
             \<and> fst (markProcessing now' (r_id r) d2) = 0))"
proof (intro conjI impI)
  assume m: "markProcessing now i d = (n, d')"
  then show "n = length (filter (\<lambda>j. job_id j = i \<and> status j = Queued) (jobs d))"
    by (auto simp: markProcessing_def)
  from m show "jobs d' = map (\<lambda>j. if job_id j = i \<and> status j = Queued then mark_row now j else j) (jobs d)"
    by (auto simp: markProcessing_def mark_row_def)
  assume "\<forall>j \<in> set (jobs d). job_id j = i \<longrightarrow> status j \<noteq> Queued"
  from markProcessing_none [OF this, of now] m show "n = 0" "d' = d" by simp_all
next
  assume a: "distinct_ids d \<and> d1 = snd (requeueStaleJobs now stale d)
        \<and> claimJobs now stale limit d = (rows, d2)"
  let ?cs = "candidates now limit d1"
  from a have di0: "distinct_ids d" and d1: "d1 = snd (requeueStaleJobs now stale d)"
    and cj: "claimJobs now stale limit d = (rows, d2)"
    by simp_all
  from di0 have di: "distinct (map job_id (jobs d1))"
    by (simp add: d1 requeue_ids distinct_ids_def)
  from cj [unfolded claimJobs_eq [OF di0]] have rows: "rows = map row_of ?cs"
    and d2: "d2 = d1\<lparr>jobs := map (\<lambda>j. if job_id j \<in> job_id ` set ?cs then mark_row now j else j)
                               (jobs d1)\<rparr>"
    by (simp_all add: d1)
  from rows show "rows = claimStmt now limit d1" by (simp add: claimStmt_def)
  show "\<forall>r \<in> set rows. fst (markProcessing now (r_id r) d1) = 1
             \<and> (\<exists>j. getJob (r_id r) d2 = Some j \<and> status j = Processing \<and> updated_at j = now)"
  proof
    fix r assume "r \<in> set rows"
    with rows obtain c where c: "c \<in> set ?cs" and r: "r_id r = job_id c"
      by (auto simp: row_of_def)
    from candidates_props(3) [OF di, of now limit] c
    have cm: "c \<in> set (jobs d1)" and cq: "status c = Queued"
      by (auto simp: eligible_def)
    have 1: "fst (markProcessing now (r_id r) d1) = 1"
      by (simp add: r markProcessing_one [OF di cm cq])
    from c have "getJob (job_id c) (snd (claimJobs now stale limit d)) = Some (mark_row now c)"
      unfolding d1 by (rule getJob_after_claim [OF di0])
    with r have "getJob (r_id r) d2 = Some (mark_row now c)" by (simp add: cj)
    with 1 show "fst (markProcessing now (r_id r) d1) = 1
             \<and> (\<exists>j. getJob (r_id r) d2 = Some j \<and> status j = Processing \<and> updated_at j = now)"
      by (simp add: mark_row_fields)
  qed
  show "\<forall>j \<in> set (jobs d1). job_id j \<notin> r_id ` set rows \<longrightarrow> j \<in> set (jobs d2)"
  proof (intro ballI impI)
    fix j assume j: "j \<in> set (jobs d1)" and n: "job_id j \<notin> r_id ` set rows"
    have "r_id ` set rows = job_id ` set ?cs"
      unfolding rows by (simp add: image_comp row_of_def comp_def)
    with n have "j = (\<lambda>j. if job_id j \<in> job_id ` set ?cs then mark_row now j else j) j"
      by simp
    then have "j \<in> (\<lambda>j. if job_id j \<in> job_id ` set ?cs then mark_row now j else j) ` set (jobs d1)"
      using j by (rule image_eqI)
    then show "j \<in> set (jobs d2)" by (simp add: d2)
  qed
next
  assume a: "distinct_ids d \<and> claimJobs now stale limit d = (rows, d2)
        \<and> claimJobs now' stale limit' d2 = (rows', d3) \<and> now' - stale < now"
  let ?d1 = "snd (requeueStaleJobs now stale d)"
  let ?cs = "candidates now limit ?d1"
  from a have di0: "distinct_ids d" and cj: "claimJobs now stale limit d = (rows, d2)"
    and cj': "claimJobs now' stale limit' d2 = (rows', d3)" and fresh: "now' - stale < now"
    by simp_all
  from cj [unfolded claimJobs_eq [OF di0]] have rows: "rows = map row_of ?cs" by simp
  from di0 have di2: "distinct_ids d2"
    using claimJobs_ids [OF di0, of now stale limit] by (simp add: distinct_ids_def cj)
  show "\<forall>r \<in> set rows. r_id r \<notin> r_id ` set rows' \<and> fst (markProcessing now' (r_id r) d2) = 0"
  proof
    fix r assume "r \<in> set rows"
    with rows obtain c where c: "c \<in> set ?cs" and r: "r_id r = job_id c"
      by (auto simp: row_of_def)
    from c have "getJob (job_id c) (snd (claimJobs now stale limit d)) = Some (mark_row now c)"
      by (rule getJob_after_claim [OF di0])
    then have g: "getJob (job_id c) d2 = Some (mark_row now c)" by (simp add: cj)
    then have m: "mark_row now c \<in> set (jobs d2)" by (rule getJob_in_jobs)
    from fresh have ns: "\<not> is_stale now' stale (mark_row now c)"
      by (simp add: is_stale_def mark_row_fields)
    have "status (mark_row now c) \<noteq> Queued" by (simp add: mark_row_fields)
    from not_returned [OF di2 m this ns, of limit']
    have 1: "r_id r \<notin> r_id ` set rows'"
      by (simp add: mark_row_fields r cj')
    have "\<forall>j \<in> set (jobs d2). job_id j = r_id r \<longrightarrow> status j \<noteq> Queued"
    proof (intro ballI impI)
      fix j assume "j \<in> set (jobs d2)" "job_id j = r_id r"
      with di2 m r have "j = mark_row now c"
        by (intro same_id_same_row [of "jobs d2"]) (simp_all add: distinct_ids_def mark_row_fields)
      then show "status j \<noteq> Queued" by (simp add: mark_row_fields)
    qed
    from markProcessing_none [OF this, of now'] 1
    show "r_id r \<notin> r_id ` set rows' \<and> fst (markProcessing now' (r_id r) d2) = 0" by simp
  qed
qed
theorem C1_claim_exclusive_witness:
  "distinct_ids db3
   \<and> claimJobs 1000 900 1 db3 = ([row_of jobB], db3\<lparr>jobs := [jobA, mark_row 1000 jobB, jobC]\<rparr>)
   \<and> claimJobs 1100 900 1 (db3\<lparr>jobs := [jobA, mark_row 1000 jobB, jobC]\<rparr>)
       = ([row_of jobA], db3\<lparr>jobs := [mark_row 1100 jobA, mark_row 1000 jobB, jobC]\<rparr>)
   \<and> 1100 - 900 < (1000::int)
   \<and> r_id (row_of jobB) \<notin> r_id ` set [row_of jobA]
   \<and> markProcessing 1100 2 (db3\<lparr>jobs := [jobA, mark_row 1000 jobB, jobC]\<rparr>)
       = (0, db3\<lparr>jobs := [jobA, mark_row 1000 jobB, jobC]\<rparr>)
   \<and> fst (markProcessing 1000 2 db3) = 1"
proof -
  let ?d2 = "db3\<lparr>jobs := [jobA, mark_row 1000 jobB, jobC]\<rparr>"
  let ?d3 = "db3\<lparr>jobs := [mark_row 1100 jobA, mark_row 1000 jobB, jobC]\<rparr>"
  have di: "distinct_ids db3"
    by (simp add: distinct_ids_def db3_def jobA_def jobB_def jobC_def)
  have r: "snd (requeueStaleJobs 1000 900 db3) = db3"
    by (simp add: requeueStaleJobs_def db3_def is_stale_def jobA_def jobB_def jobC_def)
  have c1: "claimJobs 1000 900 1 db3 = ([row_of jobB], ?d2)"
    by (simp add: claimJobs_def requeueStaleJobs_def db3_def jobA_def jobB_def jobC_def
        is_stale_def claimStmt_def candidates_def eligible_def sql_limit_def claim_order_def
        markProcessing_def less_eq_prod_def row_of_def mark_row_def)
  have c2: "claimJobs 1100 900 1 ?d2 = ([row_of jobA], ?d3)"
    by (simp add: claimJobs_def requeueStaleJobs_def db3_def jobA_def jobB_def jobC_def
        is_stale_def claimStmt_def candidates_def eligible_def sql_limit_def claim_order_def
        markProcessing_def less_eq_prod_def row_of_def mark_row_def)
  have m: "markProcessing 1100 2 ?d2 = (0, ?d2)"
    by (simp add: markProcessing_def db3_def jobA_def jobB_def jobC_def mark_row_def)
  have q: "\<forall>j \<in> set (jobs ?d2). job_id j = 2 \<longrightarrow> status j \<noteq> Queued"
    by (simp add: db3_def jobA_def jobB_def jobC_def mark_row_def)
  have i: "r_id (row_of jobB) = 2" by (simp add: row_of_def jobB_def)
  note t = C1_claim_exclusive [where now = 1000 and stale = 900 and limit = 1 and d = db3
      and ?d1.0 = db3 and rows = "[row_of jobB]" and ?d2.0 = ?d2 and now' = 1100 and limit' = 1
      and rows' = "[row_of jobA]" and ?d3.0 = ?d3 and i = 2 and n = 0 and d' = ?d2]
  from t di r c1 c2 have "r_id (row_of jobB) \<notin> r_id ` set [row_of jobA]
      \<and> fst (markProcessing 1000 (r_id (row_of jobB)) db3) = 1"
    by simp
  with di c1 c2 m i show ?thesis by simp
qed

theorem C1_two_claims_counterexample:
  "fst (claimJobs 1000 STALE_SECS 1 dbA) = [row_of jobA]
   \<and> fst (claimJobs 1900 STALE_SECS 1 (snd (claimJobs 1000 STALE_SECS 1 dbA))) = [row_of jobA]"
  by (simp add: claimJobs_def requeueStaleJobs_def dbA_def jobA_def STALE_SECS_def
      is_stale_def claimStmt_def candidates_def eligible_def sql_limit_def claim_order_def
      markProcessing_def less_eq_prod_def row_of_def requeue_row_def)

subsection \<open>Terminal statuses\<close>

lemma markProcessing_keeps:
  "j \<in> set (jobs d) \<Longrightarrow> status j \<noteq> Queued \<Longrightarrow> j \<in> set (jobs (snd (markProcessing now i d)))"
proof -
  assume j: "j \<in> set (jobs d)" and s: "status j \<noteq> Queued"
  let ?f = "\<lambda>j. if job_id j = i \<and> status j = Queued
                  then j\<lparr>status := Processing, updated_at := now\<rparr> else j"
  from s have "j = ?f j" by simp
  then have "j \<in> ?f ` set (jobs d)" using j by (rule image_eqI)
  then show ?thesis by (simp add: markProcessing_def)
qed

lemma claim_loop_keeps:
  "j \<in> set (jobs d) \<Longrightarrow> status j \<noteq> Queued \<Longrightarrow> j \<in> set (jobs (snd (claim_loop now rs acc d)))"
proof (induction rs arbitrary: acc d)
  case Nil
  then show ?case by simp
next
  case (Cons r rs)
  from markProcessing_keeps [OF Cons.prems, of now "r_id r"]
  have "j \<in> set (jobs (snd (markProcessing now (r_id r) d)))" .
  from Cons.IH [OF this Cons.prems(2)] show ?case
    by (simp add: split_def Let_def)
qed

lemma requeue_keeps:
  "j \<in> set (jobs d) \<Longrightarrow> status j \<noteq> Processing \<Longrightarrow>
   j \<in> set (jobs (snd (requeueStaleJobs now stale d)))"
proof -
  assume j: "j \<in> set (jobs d)" and s: "status j \<noteq> Processing"
  let ?f = "\<lambda>j. if is_stale now stale j then requeue_row now j else j"
  from s have "j = ?f j" by (simp add: is_stale_def)
  then have "j \<in> ?f ` set (jobs d)" using j by (rule image_eqI)
  then show ?thesis by (simp add: requeue_jobs)
qed

lemma claimJobs_keeps:
  assumes "j \<in> set (jobs d)" "status j \<noteq> Processing" "status j \<noteq> Queued"
  shows "j \<in> set (jobs (snd (claimJobs now stale limit d)))"
proof -
  let ?d1 = "snd (requeueStaleJobs now stale d)"
  have "claimJobs now stale limit d = claim_loop now (claimStmt now limit ?d1) [] ?d1"
    by (simp add: claimJobs_def split_def Let_def)
  with claim_loop_keeps [OF requeue_keeps [OF assms(1,2)] assms(3)] show ?thesis by simp
qed

lemma other_id_keeps:
  assumes "j \<in> set (jobs d)" "job_id j \<noteq> i"
  shows "j \<in> set (jobs (completeJob now i d))"
    and "j \<in> set (jobs (failJob js_now now i att err maxAttempts backoff d))"
proof -
  let ?f = "\<lambda>j. if job_id j = i
                  then j\<lparr>status := Done, updated_at := now, last_error := None\<rparr> else j"
  from assms(2) have "j = ?f j" by simp
  then have "j \<in> ?f ` set (jobs d)" using assms(1) by (rule image_eqI)
  then show "j \<in> set (jobs (completeJob now i d))"
    by (simp add: completeJob_def markDone_def)
next
  let ?g = "\<lambda>j. if job_id j = i
                  then j\<lparr>status := (if att + 1 \<ge> maxAttempts then Failed else Queued),
                         attempts := attempts j + 1, last_error := Some (take 2000 err),
                         available_at := (if att + 1 \<ge> maxAttempts then js_now else js_now + backoff),
                         updated_at := now\<rparr>
                  else j"
  from assms(2) have "j = ?g j" by simp
  then have "j \<in> ?g ` set (jobs d)" using assms(1) by (rule image_eqI)
  moreover have "jobs (failJob js_now now i att err maxAttempts backoff d) = map ?g (jobs d)"
    by (simp add: failJob_def markFail_def Let_def)
  ultimately show "j \<in> set (jobs (failJob js_now now i att err maxAttempts backoff d))" by simp
qed

lemma getJob_markDone:
  "getJob i' (completeJob now i d) =
   map_option (\<lambda>j. if job_id j = i
                     then j\<lparr>status := Done, updated_at := now, last_error := None\<rparr>
                     else j) (getJob i' d)"
  unfolding getJob_def completeJob_def markDone_def by (simp add: find_map_same_id)

text \<open>
  C6. A job whose status is done or failed is left exactly as it is by
  \<open>markProcessing\<close>, by \<open>requeueStaleJobs\<close> and by \<open>claimJobs\<close>, and by \<open>completeJob\<close> and
  \<open>failJob\<close> called for another id. \<open>completeJob\<close> and \<open>failJob\<close> update the row of the id
  they are given whatever its status: the first leaves it done, the second leaves it
  failed when \<open>att + 1 \<ge> maxAttempts\<close> and queued otherwise.
\<close>

theorem C6_terminal_rows:
  "(j \<in> set (jobs d) \<and> (status j = Done \<or> status j = Failed) \<longrightarrow>
       j \<in> set (jobs (snd (markProcessing now i d)))
     \<and> j \<in> set (jobs (snd (requeueStaleJobs now stale d)))
     \<and> j \<in> set (jobs (snd (claimJobs now stale limit d)))
     \<and> (job_id j \<noteq> i \<longrightarrow>
           j \<in> set (jobs (completeJob now i d))
         \<and> j \<in> set (jobs (failJob js_now now i att err maxAttempts backoff d))))
   \<and> (getJob i d = Some j \<longrightarrow>
        map_option status (getJob i (completeJob now i d)) = Some Done
      \<and> map_option status (getJob i (failJob js_now now i att err maxAttempts backoff d))
          = Some (if att + 1 \<ge> maxAttempts then Failed else Queued))"
proof (intro conjI impI)
  assume a: "j \<in> set (jobs d) \<and> (status j = Done \<or> status j = Failed)"
  then have j: "j \<in> set (jobs d)" and q: "status j \<noteq> Queued" and p: "status j \<noteq> Processing"
    by auto
  show "j \<in> set (jobs (snd (markProcessing now i d)))"
    by (rule markProcessing_keeps [OF j q])
  show "j \<in> set (jobs (snd (requeueStaleJobs now stale d)))"
    by (rule requeue_keeps [OF j p])
  show "j \<in> set (jobs (snd (claimJobs now stale limit d)))"
    by (rule claimJobs_keeps [OF j p q])
  assume n: "job_id j \<noteq> i"
  show "j \<in> set (jobs (completeJob now i d))"
    by (rule other_id_keeps(1) [OF j n])
  show "j \<in> set (jobs (failJob js_now now i att err maxAttempts backoff d))"
    by (rule other_id_keeps(2) [OF j n])
next
  assume g: "getJob i d = Some j"
  then have "job_id j = i" by (rule getJob_Some_id)
  with g show "map_option status (getJob i (completeJob now i d)) = Some Done"
    by (simp add: getJob_markDone)
  from g \<open>job_id j = i\<close>
  show "map_option status (getJob i (failJob js_now now i att err maxAttempts backoff d))
          = Some (if att + 1 \<ge> maxAttempts then Failed else Queued)"
    by (simp add: failJob_def getJob_markFail Let_def)
qed

theorem C6_terminal_rows_witness:
  "jobF \<in> set (jobs dbF) \<and> status jobF = Failed
   \<and> jobs (snd (claimJobs 5000 900 10 dbF)) = [jobF]
   \<and> jobs (snd (requeueStaleJobs 5000 900 dbF)) = [jobF]
   \<and> jobs (failJob 5000 5000 2 0 ''x'' 3 5 dbF) = [jobF]
   \<and> getJob 1 dbF = Some jobF
   \<and> map_option status (getJob 1 (failJob 5000 5000 1 2 ''x'' 3 5 dbF)) = Some Failed"
proof -
  have a: "jobF \<in> set (jobs dbF)" "status jobF = Failed" "job_id jobF \<noteq> 2"
    and g: "getJob 1 dbF = Some jobF"
    by (simp_all add: dbF_def jobF_def getJob_def)
  have l: "length (jobs (snd (claimJobs 5000 900 10 dbF))) = 1"
    "length (jobs (snd (requeueStaleJobs 5000 900 dbF))) = 1"
    "length (jobs (failJob 5000 5000 2 0 ''x'' 3 5 dbF)) = 1"
    by (simp_all add: claimJobs_def requeueStaleJobs_def dbF_def jobF_def
        is_stale_def claimStmt_def candidates_def eligible_def sql_limit_def
        failJob_def markFail_def)
  have one: "xs = [x]" if "length xs = 1" "x \<in> set xs" for xs :: "job list" and x
    using that by (cases xs) auto
  from C6_terminal_rows [where j = jobF and d = dbF and js_now = 5000 and now = 5000
      and stale = 900 and limit = 10 and i = 2 and att = 0 and err = "''x''" and maxAttempts = 3 and backoff = 5] a
  have k: "jobF \<in> set (jobs (snd (claimJobs 5000 900 10 dbF)))"
    "jobF \<in> set (jobs (snd (requeueStaleJobs 5000 900 dbF)))"
    "jobF \<in> set (jobs (failJob 5000 5000 2 0 ''x'' 3 5 dbF))"
    by simp_all
  from C6_terminal_rows [where j = jobF and d = dbF and js_now = 5000 and now = 5000
      and stale = 900 and limit = 10 and i = 1 and att = 2 and err = "''x''" and maxAttempts = 3 and backoff = 5] g
  have f: "map_option status (getJob 1 (failJob 5000 5000 1 2 ''x'' 3 5 dbF)) = Some Failed"
    by simp
  from a g f one [OF l(1) k(1)] one [OF l(2) k(2)] one [OF l(3) k(3)] show ?thesis by simp
qed

theorem C6_failed_requeued_counterexample:
  "map status (jobs dbF) = [Failed]
   \<and> map status (jobs (failJob 5000 5000 1 0 ''late'' 3 5 dbF)) = [Queued]
   \<and> map status (jobs (completeJob 5000 1 dbF)) = [Done]"
  by (simp add: dbF_def jobF_def failJob_def markFail_def completeJob_def markDone_def)

subsection \<open>Availability and the time of entering queued\<close>

lemma entered_map:
  assumes ok: "\<forall>j \<in> set xs. entered_ok c E j" and c: "c \<le> t" and tu: "t \<le> u"
    and ids: "\<forall>j \<in> set xs. job_id (h j) = job_id j"
    and av: "\<forall>j \<in> set xs.
               if job_id j \<in> set ids
               then t \<le> available_at (h j) \<and> (status (h j) = Queued \<longrightarrow> updated_at (h j) = u)
               else (available_at (h j) = available_at j \<or> c \<le> available_at (h j))
                    \<and> (status (h j) = Queued \<longrightarrow> status j = Queued \<and> updated_at (h j) = updated_at j)"
  shows "\<forall>j \<in> set (map h xs). entered_ok u (stamp (t, u) ids E) j"
proof
  fix j' assume "j' \<in> set (map h xs)"
  then obtain j where j: "j \<in> set xs" and j': "j' = h j" by auto
  from ids j have i: "job_id (h j) = job_id j" by blast
  show "entered_ok u (stamp (t, u) ids E) j'"
  proof (cases "job_id j \<in> set ids")
    case True
    with av j have "t \<le> available_at (h j)" "status (h j) = Queued \<longrightarrow> updated_at (h j) = u"
      by auto
    with True tu show ?thesis by (simp add: entered_ok_def stamp_def j' i)
  next
    case False
    from ok j obtain a b where t: "E (job_id j) = Some (a, b)" "a \<le> b" "b \<le> c"
      "a \<le> available_at j" "status j = Queued \<longrightarrow> updated_at j = b"
      by (auto simp: entered_ok_def split: option.splits)
    from av j False have v: "available_at (h j) = available_at j \<or> c \<le> available_at (h j)"
      and w: "status (h j) = Queued \<longrightarrow> status j = Queued \<and> updated_at (h j) = updated_at j"
      by auto
    from v t have "a \<le> available_at (h j)" by auto
    moreover from w t have "status (h j) = Queued \<longrightarrow> updated_at (h j) = b" by auto
    moreover from t c tu have "b \<le> u" by simp
    ultimately show ?thesis using False t by (simp add: entered_ok_def stamp_def j' i)
  qed
qed

lemma entered_later:
  "entered_ok c E j \<Longrightarrow> c \<le> c' \<Longrightarrow> entered_ok c' E j"
  by (auto simp: entered_ok_def split: option.splits)

lemma stamp_nil: "stamp t [] E = E"
  by (simp add: stamp_def)

lemma stale_ids_iff:
  assumes "distinct (map job_id xs)" "j \<in> set xs"
  shows "job_id j \<in> job_id ` set (filter (is_stale now stale) xs) \<longleftrightarrow> is_stale now stale j"
proof
  assume "job_id j \<in> job_id ` set (filter (is_stale now stale) xs)"
  then obtain k where k: "k \<in> set xs" "is_stale now stale k" "job_id j = job_id k" by auto
  from same_id_same_row [OF assms(1) assms(2) k(1) k(3)] k(2) show "is_stale now stale j" by simp
next
  assume "is_stale now stale j"
  with assms(2) show "job_id j \<in> job_id ` set (filter (is_stale now stale) xs)" by simp
qed

lemma sys_invI:
  assumes "distinct (map job_id (jobs (store s)))"
    and "\<forall>j \<in> set (jobs (store s)). job_id j \<le> seq (store s)"
    and "\<forall>j \<in> set (jobs (store s)). entered_ok (clock s) (queued_at s) j"
  shows "sys_inv s"
  using assms by (simp add: sys_inv_def list_all_iff)

lemma sys_invD:
  assumes "sys_inv s"
  shows "distinct (map job_id (jobs (store s)))"
    and "\<forall>j \<in> set (jobs (store s)). job_id j \<le> seq (store s)"
    and "\<forall>j \<in> set (jobs (store s)). entered_ok (clock s) (queued_at s) j"
  using assms by (simp_all add: sys_inv_def list_all_iff)

lemma inv_map_step:
  assumes inv: "sys_inv s" and c: "clock s \<le> t" and tu: "t \<le> u"
    and st: "jobs (store s') = map h (jobs (store s))" "seq (store s') = seq (store s)"
      "queued_at s' = stamp (t, u) ids (queued_at s)" "clock s' = u"
    and ids: "\<forall>j \<in> set (jobs (store s)). job_id (h j) = job_id j"
    and av: "\<forall>j \<in> set (jobs (store s)).
               if job_id j \<in> set ids
               then t \<le> available_at (h j) \<and> (status (h j) = Queued \<longrightarrow> updated_at (h j) = u)
               else (available_at (h j) = available_at j \<or> clock s \<le> available_at (h j))
                    \<and> (status (h j) = Queued \<longrightarrow> status j = Queued \<and> updated_at (h j) = updated_at j)"
  shows "sys_inv s'"
proof (rule sys_invI)
  note d = sys_invD [OF inv]
  from ids have m: "map job_id (map h (jobs (store s))) = map job_id (jobs (store s))"
    by simp
  with d(1) show "distinct (map job_id (jobs (store s')))" by (simp only: st(1))
  from d(2) ids show "\<forall>j \<in> set (jobs (store s')). job_id j \<le> seq (store s')"
    by (auto simp: st)
  from entered_map [OF d(3) c tu ids av]
  show "\<forall>j \<in> set (jobs (store s')). entered_ok (clock s') (queued_at s') j"
    by (simp only: st)
qed

lemma step_enqueue:
  assumes inv: "sys_inv s" and c: "clock s \<le> js_now" and tu: "js_now \<le> now"
    and dl: "0 \<le> delaySeconds"
  shows "sys_inv (step stale js_now now (Enqueue fo ip tp prio delaySeconds) s)"
proof (rule sys_invI)
  note d = sys_invD [OF inv]
  let ?s' = "step stale js_now now (Enqueue fo ip tp prio delaySeconds) s"
  let ?n = "\<lparr>job_id = seq (store s) + 1, folder = fo, image_path = ip, text_path = tp,
            status = Queued, attempts = 0, last_error = None, priority = prio,
            available_at = js_now + delaySeconds, created_at = now, updated_at = now\<rparr>"
  have j: "jobs (store ?s') = jobs (store s) @ [?n]" and q: "seq (store ?s') = seq (store s) + 1"
    and e: "queued_at ?s' = stamp (js_now, now) [seq (store s) + 1] (queued_at s)"
    and k: "clock ?s' = now"
    by (simp_all add: enqueueJob_def)
  from d(2) have fresh: "\<forall>j \<in> set (jobs (store s)). job_id j \<noteq> seq (store s) + 1"
    by auto
  then have "seq (store s) + 1 \<notin> job_id ` set (jobs (store s))" by auto
  with d(1) show "distinct (map job_id (jobs (store ?s')))"
    unfolding j by simp
  from d(2) show "\<forall>j \<in> set (jobs (store ?s')). job_id j \<le> seq (store ?s')"
    unfolding j q by auto
  show "\<forall>j \<in> set (jobs (store ?s')). entered_ok (clock ?s') (queued_at ?s') j"
    unfolding j e k
  proof
    fix x assume "x \<in> set (jobs (store s) @ [?n])"
    then consider "x \<in> set (jobs (store s))" | "x = ?n" by auto
    then show "entered_ok now (stamp (js_now, now) [seq (store s) + 1] (queued_at s)) x"
    proof cases
      case 1
      with fresh
      have "stamp (js_now, now) [seq (store s) + 1] (queued_at s) (job_id x) = queued_at s (job_id x)"
        by (simp add: stamp_def)
      moreover have "entered_ok now (queued_at s) x"
      proof (rule entered_later)
        from d(3) 1 show "entered_ok (clock s) (queued_at s) x" by blast
        from c tu show "clock s \<le> now" by simp
      qed
      ultimately show ?thesis by (simp add: entered_ok_def)
    next
      case 2
      with dl tu show ?thesis by (simp add: entered_ok_def stamp_def)
    qed
  qed
qed

lemma step_requeue:
  assumes inv: "sys_inv s" and c: "clock s \<le> now"
  shows "sys_inv (step stale js_now now (RequeueStale staleSeconds) s)"
proof (rule inv_map_step [OF inv c order_refl])
  let ?h = "\<lambda>j. if is_stale now staleSeconds j then requeue_row now j else j"
  show "jobs (store (step stale js_now now (RequeueStale staleSeconds) s)) = map ?h (jobs (store s))"
    by (simp add: requeue_jobs)
  show "seq (store (step stale js_now now (RequeueStale staleSeconds) s)) = seq (store s)"
    by (simp add: requeueStaleJobs_def)
  show "queued_at (step stale js_now now (RequeueStale staleSeconds) s)
        = stamp (now, now) (stale_ids now staleSeconds (store s)) (queued_at s)"
    by simp
  show "clock (step stale js_now now (RequeueStale staleSeconds) s) = now" by simp
  show "\<forall>j \<in> set (jobs (store s)). job_id (?h j) = job_id j"
    by (simp add: requeue_row_fields)
  show "\<forall>j \<in> set (jobs (store s)).
          if job_id j \<in> set (stale_ids now staleSeconds (store s))
          then now \<le> available_at (?h j) \<and> (status (?h j) = Queued \<longrightarrow> updated_at (?h j) = now)
          else (available_at (?h j) = available_at j \<or> clock s \<le> available_at (?h j))
               \<and> (status (?h j) = Queued \<longrightarrow> status j = Queued \<and> updated_at (?h j) = updated_at j)"
    using stale_ids_iff [OF sys_invD(1) [OF inv], of _ now staleSeconds]
    by (simp add: stale_ids_def requeue_row_fields)
qed

lemma step_claim:
  assumes inv: "sys_inv s" and c: "clock s \<le> now"
  shows "sys_inv (step stale js_now now (Claim limit) s)"
proof (rule inv_map_step [OF inv c order_refl])
  let ?d = "store s"
  let ?d1 = "snd (requeueStaleJobs now stale ?d)"
  let ?cs = "candidates now limit ?d1"
  let ?g = "\<lambda>j. if is_stale now stale j then requeue_row now j else j"
  let ?f = "\<lambda>j. if job_id j \<in> job_id ` set ?cs then mark_row now j else j"
  have di: "distinct_ids ?d" using sys_invD(1) [OF inv] by (simp add: distinct_ids_def)
  show "jobs (store (step stale js_now now (Claim limit) s)) = map (?f \<circ> ?g) (jobs ?d)"
    by (simp add: claimJobs_eq [OF di] requeue_jobs)
  show "seq (store (step stale js_now now (Claim limit) s)) = seq ?d"
    by (simp add: claimJobs_eq [OF di] requeueStaleJobs_def)
  show "queued_at (step stale js_now now (Claim limit) s)
        = stamp (now, now) (stale_ids now stale ?d) (queued_at s)"
    by simp
  show "clock (step stale js_now now (Claim limit) s) = now" by simp
  show "\<forall>j \<in> set (jobs ?d). job_id ((?f \<circ> ?g) j) = job_id j"
    by (simp add: requeue_row_fields mark_row_fields)
  have av: "available_at ((?f \<circ> ?g) j) = available_at (?g j)" for j
    by (simp add: mark_row_fields)
  have qu: "status ((?f \<circ> ?g) j) = Queued \<longrightarrow>
            status (?g j) = Queued \<and> updated_at ((?f \<circ> ?g) j) = updated_at (?g j)" for j
    by (simp add: mark_row_fields)
  have "if job_id j \<in> set (stale_ids now stale ?d)
        then now \<le> available_at ((?f \<circ> ?g) j)
             \<and> (status ((?f \<circ> ?g) j) = Queued \<longrightarrow> updated_at ((?f \<circ> ?g) j) = now)
        else (available_at ((?f \<circ> ?g) j) = available_at j \<or> clock s \<le> available_at ((?f \<circ> ?g) j))
             \<and> (status ((?f \<circ> ?g) j) = Queued \<longrightarrow>
                  status j = Queued \<and> updated_at ((?f \<circ> ?g) j) = updated_at j)"
    if j: "j \<in> set (jobs ?d)" for j
  proof (cases "is_stale now stale j")
    case True
    with j have "job_id j \<in> set (stale_ids now stale ?d)"
      using stale_ids_iff [OF sys_invD(1) [OF inv] j, of now stale] by (simp add: stale_ids_def)
    moreover from True have "?g j = requeue_row now j" by simp
    ultimately show ?thesis using av [of j] qu [of j]
      by (simp only: requeue_row_fields if_True) auto
  next
    case False
    with j have "job_id j \<notin> set (stale_ids now stale ?d)"
      using stale_ids_iff [OF sys_invD(1) [OF inv] j, of now stale] by (simp add: stale_ids_def)
    moreover from False have "?g j = j" by simp
    ultimately show ?thesis using av [of j] qu [of j]
      by (simp only: if_False) auto
  qed
  then show "\<forall>j \<in> set (jobs ?d).
          if job_id j \<in> set (stale_ids now stale ?d)
          then now \<le> available_at ((?f \<circ> ?g) j)
             \<and> (status ((?f \<circ> ?g) j) = Queued \<longrightarrow> updated_at ((?f \<circ> ?g) j) = now)
          else (available_at ((?f \<circ> ?g) j) = available_at j \<or> clock s \<le> available_at ((?f \<circ> ?g) j))
             \<and> (status ((?f \<circ> ?g) j) = Queued \<longrightarrow>
                  status j = Queued \<and> updated_at ((?f \<circ> ?g) j) = updated_at j)"
    by blast
qed

lemma step_complete:
  assumes inv: "sys_inv s" and c: "clock s \<le> now"
  shows "sys_inv (step stale js_now now (Complete i) s)"
proof (rule inv_map_step [OF inv c order_refl, where ids = "[]"])
  let ?h = "\<lambda>j. if job_id j = i then j\<lparr>status := Done, updated_at := now, last_error := None\<rparr> else j"
  show "jobs (store (step stale js_now now (Complete i) s)) = map ?h (jobs (store s))"
    by (simp add: completeJob_rows)
  show "seq (store (step stale js_now now (Complete i) s)) = seq (store s)"
    by (simp add: completeJob_def markDone_def)
  show "queued_at (step stale js_now now (Complete i) s) = stamp (now, now) [] (queued_at s)"
    by (simp add: stamp_nil)
  show "clock (step stale js_now now (Complete i) s) = now" by simp
  show "\<forall>j \<in> set (jobs (store s)). job_id (?h j) = job_id j" by simp
  show "\<forall>j \<in> set (jobs (store s)).
          if job_id j \<in> set []
          then now \<le> available_at (?h j) \<and> (status (?h j) = Queued \<longrightarrow> updated_at (?h j) = now)
          else (available_at (?h j) = available_at j \<or> clock s \<le> available_at (?h j))
               \<and> (status (?h j) = Queued \<longrightarrow> status j = Queued \<and> updated_at (?h j) = updated_at j)"
    by simp
qed

lemma step_fail:
  assumes inv: "sys_inv s" and c: "clock s \<le> js_now" and tu: "js_now \<le> now"
    and b: "0 \<le> backoff"
  shows "sys_inv (step stale js_now now (Fail i att err maxAttempts backoff) s)"
proof (rule inv_map_step [OF inv c tu])
  let ?ids = "if att + 1 \<ge> maxAttempts then [] else [i]"
  let ?h = "\<lambda>j. if job_id j = i
                  then j\<lparr>status := (if att + 1 \<ge> maxAttempts then Failed else Queued),
                         attempts := attempts j + 1, last_error := Some (take 2000 err),
                         available_at := (if att + 1 \<ge> maxAttempts then js_now else js_now + backoff),
                         updated_at := now\<rparr>
                  else j"
  show "jobs (store (step stale js_now now (Fail i att err maxAttempts backoff) s))
        = map ?h (jobs (store s))"
    by (simp add: failJob_def markFail_def Let_def)
  show "seq (store (step stale js_now now (Fail i att err maxAttempts backoff) s)) = seq (store s)"
    by (simp add: failJob_def markFail_def Let_def)
  show "queued_at (step stale js_now now (Fail i att err maxAttempts backoff) s)
        = stamp (js_now, now) ?ids (queued_at s)"
    by simp
  show "clock (step stale js_now now (Fail i att err maxAttempts backoff) s) = now" by simp
  show "\<forall>j \<in> set (jobs (store s)). job_id (?h j) = job_id j" by simp
  show "\<forall>j \<in> set (jobs (store s)).
          if job_id j \<in> set ?ids
          then js_now \<le> available_at (?h j) \<and> (status (?h j) = Queued \<longrightarrow> updated_at (?h j) = now)
          else (available_at (?h j) = available_at j \<or> clock s \<le> available_at (?h j))
               \<and> (status (?h j) = Queued \<longrightarrow> status j = Queued \<and> updated_at (?h j) = updated_at j)"
    using b c by simp
qed

lemma step_purge:
  assumes inv: "sys_inv s" and c: "clock s \<le> now"
  shows "sys_inv (step stale js_now now (Purge days) s)"
proof (rule sys_invI)
  note d = sys_invD [OF inv]
  let ?s' = "step stale js_now now (Purge days) s"
  have j: "jobs (store ?s') = filter (\<lambda>j. \<not> ((status j = Done \<or> status j = Failed)
                                 \<and> updated_at j \<le> now - days * 86400)) (jobs (store s))"
    and q: "seq (store ?s') = seq (store s)" "queued_at ?s' = queued_at s" "clock ?s' = now"
    by (simp_all add: purgeOldJobs_eq)
  from d(1) show "distinct (map job_id (jobs (store ?s')))"
    unfolding j by (rule distinct_map_filter)
  from d(2) show "\<forall>j \<in> set (jobs (store ?s')). job_id j \<le> seq (store ?s')"
    unfolding j q by simp
  from d(3) c show "\<forall>j \<in> set (jobs (store ?s')). entered_ok (clock ?s') (queued_at ?s') j"
    unfolding j q by (auto intro: entered_later)
qed

lemma step_serial:
  assumes inv: "sys_inv s" and c: "clock s \<le> now"
  shows "sys_inv (step stale js_now now (NextSerial f) s)"
proof (rule sys_invI)
  note d = sys_invD [OF inv]
  let ?s' = "step stale js_now now (NextSerial f) s"
  have j: "jobs (store ?s') = jobs (store s)"
    and q: "seq (store ?s') = seq (store s)" "queued_at ?s' = queued_at s" "clock ?s' = now"
    by (simp_all add: nextSerial_total)
  from d(1) show "distinct (map job_id (jobs (store ?s')))" unfolding j .
  from d(2) show "\<forall>j \<in> set (jobs (store ?s')). job_id j \<le> seq (store ?s')"
    unfolding j q .
  from d(3) c show "\<forall>j \<in> set (jobs (store ?s')). entered_ok (clock ?s') (queued_at ?s') j"
    unfolding j q by (auto intro: entered_later)
qed

lemma step_inv:
  assumes "sys_inv s" "clock s \<le> js_now" "js_now \<le> now" "delay_ok x"
  shows "sys_inv (step stale js_now now x s)"
proof -
  from assms have c: "clock s \<le> now" by simp
  show ?thesis
  proof (cases x)
    case (Enqueue fo ip tp prio delaySeconds)
    with assms show ?thesis by (simp only: delay_ok.simps step_enqueue)
  next
    case (Claim limit)
    with assms(1) c show ?thesis by (simp only: step_claim)
  next
    case (RequeueStale staleSeconds)
    with assms(1) c show ?thesis by (simp only: step_requeue)
  next
    case (Complete i)
    with assms(1) c show ?thesis by (simp only: step_complete)
  next
    case (Fail i att err maxAttempts backoff)
    with assms show ?thesis by (simp only: delay_ok.simps step_fail)
  next
    case (Purge days)
    with assms(1) c show ?thesis by (simp only: step_purge)
  next
    case (NextSerial f)
    with assms(1) c show ?thesis by (simp only: step_serial)
  qed
qed

lemma step_clock: "clock (step stale js_now now x s) = now"
  by (cases x) simp_all

lemma run_inv:
  assumes "sys_inv s" "sorted (clock_readings tr)" "\<forall>t \<in> set (clock_readings tr). clock s \<le> t"
    and "\<forall>x \<in> set (map (\<lambda>e. snd (snd e)) tr). delay_ok x"
  shows "sys_inv (run stale tr s)"
  using assms
proof (induction tr arbitrary: s)
  case Nil
  then show ?case by simp
next
  case (Cons a tr)
  obtain js_now now x where a: "a = (js_now, now, x)" by (cases a)
  from Cons.prems a have 1: "sys_inv (step stale js_now now x s)"
    by (intro step_inv) simp_all
  from Cons.prems a have 2: "sorted (clock_readings tr)"
    and 3: "\<forall>t \<in> set (clock_readings tr). clock (step stale js_now now x s) \<le> t"
    and 4: "\<forall>x \<in> set (map (\<lambda>e. snd (snd e)) tr). delay_ok x"
    by (simp_all add: step_clock)
  from Cons.IH [OF 1 2 3 4] show ?case by (simp add: a)
qed

lemma step_clock_irrelevant: "step stale js_now now x (s\<lparr>clock := c\<rparr>) = step stale js_now now x s"
  by (cases x) (simp_all add: nextSerial_total)

lemma run_from_init:
  assumes "sorted (clock_readings tr)" "\<forall>x \<in> set (map (\<lambda>e. snd (snd e)) tr). delay_ok x"
  shows "sys_inv (run stale tr init_sys)"
proof (cases tr)
  case Nil
  then show ?thesis by (simp add: sys_inv_def init_sys_def empty_db_def)
next
  case (Cons a tr')
  obtain js_now now x where a: "a = (js_now, now, x)" by (cases a)
  let ?s = "init_sys\<lparr>clock := js_now\<rparr>"
  have i: "sys_inv ?s" by (simp add: sys_inv_def init_sys_def empty_db_def)
  from assms Cons a have "\<forall>t \<in> set (clock_readings tr). clock ?s \<le> t" by auto
  from run_inv [OF i assms(1) this assms(2), of stale]
  show ?thesis by (simp add: Cons a step_clock_irrelevant)
qed

text \<open>
  C8. In every run of store operations from the empty database whose clock readings do
  not decrease and whose delays (\<open>enqueueJob\<close>) and backoffs (\<open>failJob\<close>) are not negative,
  every job has \<open>available_at\<close> at or after the clock reading \<open>t\<close> that the operation which
  most recently queued it took before writing the row. The row is written at the later
  reading \<open>u\<close> of the statement, which is the \<open>updated_at\<close> of a queued job, so
  \<open>available_at\<close> may be smaller than \<open>updated_at\<close>, by at most \<open>u - t\<close>.
  \<open>enqueueJob\<close> inserts the job queued with \<open>available_at = js_now + delay\<close>, a retry sets
  \<open>available_at = js_now + backoff\<close>, and stale recovery sets \<open>available_at = now\<close>.
\<close>

theorem C8_available_at_after_queued:
  "(sorted (clock_readings tr) \<and> (\<forall>x \<in> set (map (\<lambda>e. snd (snd e)) tr). delay_ok x)
      \<and> j \<in> set (jobs (store (run stale tr init_sys))) \<longrightarrow>
        (\<exists>t u. queued_at (run stale tr init_sys) (job_id j) = Some (t, u)
            \<and> t \<le> u \<and> t \<le> available_at j
            \<and> (status j = Queued \<longrightarrow>
                  updated_at j = u \<and> updated_at j - available_at j \<le> u - t)))
   \<and> jobs (enqueueJob js_now now fo ip tp prio delaySeconds d) =
       jobs d @ [\<lparr>job_id = seq d + 1, folder = fo, image_path = ip, text_path = tp,
                  status = Queued, attempts = 0, last_error = None, priority = prio,
                  available_at = js_now + delaySeconds, created_at = now, updated_at = now\<rparr>]
   \<and> (getJob i d = Some k \<and> att + 1 < maxAttempts \<longrightarrow>
        map_option status (getJob i (failJob js_now now i att err maxAttempts backoff d))
          = Some Queued
      \<and> map_option available_at (getJob i (failJob js_now now i att err maxAttempts backoff d))
          = Some (js_now + backoff)
      \<and> map_option updated_at (getJob i (failJob js_now now i att err maxAttempts backoff d))
          = Some now)
   \<and> (k \<in> set (jobs d) \<and> is_stale now stale k \<longrightarrow>
        requeue_row now k \<in> set (jobs (snd (requeueStaleJobs now stale d)))
      \<and> status (requeue_row now k) = Queued \<and> available_at (requeue_row now k) = now
      \<and> updated_at (requeue_row now k) = now)"
proof (intro conjI impI)
  assume a: "sorted (clock_readings tr) \<and> (\<forall>x \<in> set (map (\<lambda>e. snd (snd e)) tr). delay_ok x)
      \<and> j \<in> set (jobs (store (run stale tr init_sys)))"
  then have "sys_inv (run stale tr init_sys)" by (intro run_from_init) simp_all
  from sys_invD(3) [OF this] a
  have "entered_ok (clock (run stale tr init_sys)) (queued_at (run stale tr init_sys)) j"
    by blast
  then obtain t u where e: "queued_at (run stale tr init_sys) (job_id j) = Some (t, u)"
    and tu: "t \<le> u" "t \<le> available_at j" and q: "status j = Queued \<longrightarrow> updated_at j = u"
    by (auto simp: entered_ok_def split: option.splits)
  from tu q have "status j = Queued \<longrightarrow> updated_at j = u \<and> updated_at j - available_at j \<le> u - t"
    by auto
  with e tu show "\<exists>t u. queued_at (run stale tr init_sys) (job_id j) = Some (t, u)
            \<and> t \<le> u \<and> t \<le> available_at j
            \<and> (status j = Queued \<longrightarrow>
                  updated_at j = u \<and> updated_at j - available_at j \<le> u - t)"
    by blast
next
  show "jobs (enqueueJob js_now now fo ip tp prio delaySeconds d) =
       jobs d @ [\<lparr>job_id = seq d + 1, folder = fo, image_path = ip, text_path = tp,
                  status = Queued, attempts = 0, last_error = None, priority = prio,
                  available_at = js_now + delaySeconds, created_at = now, updated_at = now\<rparr>]"
    by (simp add: enqueueJob_def)
next
  assume g: "getJob i d = Some k \<and> att + 1 < maxAttempts"
  then have "job_id k = i" by (auto dest: getJob_Some_id)
  with g show "map_option status (getJob i (failJob js_now now i att err maxAttempts backoff d))
          = Some Queued"
    and "map_option available_at (getJob i (failJob js_now now i att err maxAttempts backoff d))
          = Some (js_now + backoff)"
    and "map_option updated_at (getJob i (failJob js_now now i att err maxAttempts backoff d))
          = Some now"
    by (simp_all add: failJob_def getJob_markFail Let_def)
next
  assume s: "k \<in> set (jobs d) \<and> is_stale now stale k"
  then have "requeue_row now k = (\<lambda>j. if is_stale now stale j then requeue_row now j else j) k"
    by simp
  moreover from s have "k \<in> set (jobs d)" by simp
  ultimately show "requeue_row now k \<in> set (jobs (snd (requeueStaleJobs now stale d)))"
    unfolding requeue_jobs set_map by (rule image_eqI)
  show "status (requeue_row now k) = Queued" "available_at (requeue_row now k) = now"
    "updated_at (requeue_row now k) = now"
    by (simp_all add: requeue_row_fields)
qed

theorem C8_available_at_witness:
  "sorted (clock_readings sample_run) \<and> list_all delay_ok (map (\<lambda>e. snd (snd e)) sample_run)
   \<and> jobs (store (run 900 sample_run init_sys)) = [jobR]
   \<and> queued_at (run 900 sample_run init_sys) 1 = Some (130, 131)
   \<and> (130::int) \<le> available_at jobR \<and> status jobR = Queued \<and> updated_at jobR = 131
   \<and> updated_at jobR - available_at jobR \<le> 131 - 130"
proof -
  have s: "sorted (clock_readings sample_run)"
    "\<forall>x \<in> set (map (\<lambda>e. snd (snd e)) sample_run). delay_ok x"
    by (simp_all add: sample_run_def)
  have c: "claimJobs 100 900 1 (enqueueJob 100 100 ''X'' ''a.png'' ''a.txt'' 0 0 empty_db)
           = ([\<lparr>r_id = 1, r_folder = ''X'', r_image_path = ''a.png'', r_text_path = ''a.txt'',
                r_attempts = 0\<rparr>],
              \<lparr>jobs = [\<lparr>job_id = 1, folder = ''X'', image_path = ''a.png'', text_path = ''a.txt'',
                  status = Processing, attempts = 0, last_error = None, priority = 0,
                  available_at = 100, created_at = 100, updated_at = 100\<rparr>],
               folders = Map.empty, seq = 1\<rparr>)"
    by (simp add: claimJobs_def requeueStaleJobs_def enqueueJob_def empty_db_def
        is_stale_def claimStmt_def candidates_def eligible_def sql_limit_def claim_order_def
        row_of_def markProcessing_def)
  have r: "jobs (store (run 900 sample_run init_sys)) = [jobR]"
    by (simp add: sample_run_def init_sys_def c failJob_def markFail_def jobR_def)
  have q: "queued_at (run 900 sample_run init_sys) 1 = Some (130, 131)"
    by (simp add: sample_run_def init_sys_def stamp_def)
  have f: "job_id jobR = 1" "status jobR = Queued" "updated_at jobR = 131" "available_at jobR = 135"
    by (simp_all add: jobR_def)
  from C8_available_at_after_queued [where tr = sample_run and stale = 900 and j = jobR] s r q f
  have "(130::int) \<le> available_at jobR \<and> updated_at jobR - available_at jobR \<le> 131 - 130"
    by simp
  with s r q f show ?thesis by (simp add: list_all_iff)
qed

theorem C8_available_at_counterexample:
  "jobs (enqueueJob 1000 1001 ''X'' ''a.png'' ''a.txt'' 0 0 empty_db)
     = [\<lparr>job_id = 1, folder = ''X'', image_path = ''a.png'', text_path = ''a.txt'',
         status = Queued, attempts = 0, last_error = None, priority = 0,
         available_at = 1000, created_at = 1001, updated_at = 1001\<rparr>]
   \<and> jobs (enqueueJob 1000 1000 ''X'' ''a.png'' ''a.txt'' 0 (- 5) empty_db)
     = [\<lparr>job_id = 1, folder = ''X'', image_path = ''a.png'', text_path = ''a.txt'',
         status = Queued, attempts = 0, last_error = None, priority = 0,
         available_at = 995, created_at = 1000, updated_at = 1000\<rparr>]"
  by (simp add: enqueueJob_def empty_db_def)

end
